theory Spec2Isabelle
  imports Complex_Main "HOL-Library.Log_Nat"
begin

unbundle bit_operations_syntax

section \<open>Qwinto: the data model of \<open>qwinto.h\<close>\<close>

text \<open>
  The state of \<open>QwintoState\<close> is one flat vector \<open>scores_\<close> holding, for each player,
  27 score cells (three colour rows of nine fields) followed by the miss slot, together
  with the turn counters. The members of the class carry a trailing underscore in the
  source (\<open>player_\<close>, \<open>scores_\<close>, ...); the record fields below drop it.
  C++ \<open>int\<close> and \<open>Action\<close> values are modelled as unbounded integers: on all
  reachable states every stored value lies in \<open>[-20, 18]\<close> (lemma
  \<open>reachable_inv\<close> below), far from any overflow.
\<close>

datatype Phase = kSelectDice | kRollDice | kSubmitPoints

text \<open>
  \<open>SPIEL_CHECK_*\<close> and \<open>SpielFatalError\<close> abort; an access to \<open>scores_\<close> outside
  the vector has no defined behaviour in C++. Both are results of the model.
\<close>

datatype error = SpielFatalError | UndefinedBehaviour

definition kInvalidDie :: int where "kInvalidDie = 0"
definition kOrange :: int where "kOrange = 1"
definition kPurple :: int where "kPurple = 2"
definition kYellow :: int where "kYellow = 4"

definition kDefaultNumDice :: int where "kDefaultNumDice = 3"
definition kDefaultNumFields :: int where "kDefaultNumFields = 9"
definition kDefaultMissPoints :: int where "kDefaultMissPoints = - 5"
definition kDefaultTerminationPoints :: int where "kDefaultTerminationPoints = - 20"

text \<open>
  Modelled from the spec: the player-identity sentinels of the host framework
  (chance, simultaneous, terminal), which are not declared in the game's sources.
  The spec only asks that they be distinct from the real player indices \<open>0..N-1\<close>;
  the values are negative and pairwise distinct, and nothing below uses more than that.
\<close>

definition kChancePlayerId :: int where "kChancePlayerId = - 1"
definition kSimultaneousPlayerId :: int where "kSimultaneousPlayerId = - 2"
definition kTerminalPlayerId :: int where "kTerminalPlayerId = - 4"

text \<open>
  The source uses three constants that the header at hand does not declare:
  \<open>kActionSkip\<close>, \<open>kActionMiss\<close> and \<open>kDefaultNumDiceRolls\<close>. They are parameters
  of the model. \<open>sentinels_ok\<close> is what the spec says about them: "miss" adds the penalty
  to the miss slot, cell \<open>D * F = 27\<close> of the board, which the source addresses as
  \<open>scores_[p * 28 + kActionMiss]\<close>; "skip" is a sentinel and no cell index.
\<close>

record game_consts =
  kActionSkip :: int
  kActionMiss :: int
  kDefaultNumDiceRolls :: int

definition sentinels_ok :: "game_consts \<Rightarrow> bool" where
  "sentinels_ok K \<longleftrightarrow>
     kActionMiss K = kDefaultNumDice * kDefaultNumFields \<and>
     (kActionSkip K < 0 \<or> kDefaultNumDice * kDefaultNumFields < kActionSkip K)"

record QwintoState =
  num_players :: int
  player :: int
  current_player :: int
  num_dice_rolls :: int
  dice :: int
  dice_outcome :: int
  phase :: Phase
  scores :: "int list"

text \<open>The constructor: everything zero, one board of 28 cells per player.\<close>

definition NewInitialState :: "int \<Rightarrow> QwintoState" where
  "NewInitialState n =
     \<lparr>num_players = n, player = 0, current_player = 0, num_dice_rolls = 0,
      dice = kInvalidDie, dice_outcome = 0, phase = kSelectDice,
      scores = replicate (nat (n * (kDefaultNumDice * kDefaultNumFields + 1))) 0\<rparr>"

section \<open>Termination and the awaited player\<close>

definition IsTerminal :: "QwintoState \<Rightarrow> bool" where
  "IsTerminal s =
     (let offset = kDefaultNumDice * kDefaultNumFields + 1 in
      list_ex (\<lambda>p. scores s ! nat ((p + 1) * offset - 1) \<le> kDefaultTerminationPoints)
        [0 .. num_players s - 1])"

definition CurrentPlayer :: "QwintoState \<Rightarrow> int" where
  "CurrentPlayer s = (if IsTerminal s then kTerminalPlayerId else player s)"

text \<open>
  Modelled from the spec: \<open>IsChanceNode\<close> and \<open>IsSimultaneousNode\<close> of the host
  framework. The decision-maker of a chance node is reported as the chance identity,
  that of the submit phase as the "all players" marker.
\<close>

definition IsChanceNode :: "QwintoState \<Rightarrow> bool" where
  "IsChanceNode s \<longleftrightarrow> CurrentPlayer s = kChancePlayerId"

definition IsSimultaneousNode :: "QwintoState \<Rightarrow> bool" where
  "IsSimultaneousNode s \<longleftrightarrow> CurrentPlayer s = kSimultaneousPlayerId"

section \<open>Chance outcomes\<close>

text \<open>
  The probabilities are C++ \<open>double\<close>s. A finite double is a mantissa and an
  exponent, \<open>Double m e\<close> with value \<open>m * 2 ^ e\<close>. The source writes every
  probability as a quotient of an integer by a floating literal, \<open>1/6.\<close>, \<open>3/216.\<close>:
  both operands are exact, and the IEEE 754 division returns the double nearest to the
  quotient, with 53 significant bits and ties to the even mantissa. \<open>double_div a b\<close> is
  that double for positive integers \<open>a\<close> and \<open>b\<close> below \<open>2 ^ 53\<close> (the quotient is then
  in the normal range): \<open>e\<close> is the exponent of the leading bit of \<open>a / b\<close>, and the
  quotient scaled to 53 bits is rounded to an integer mantissa.
\<close>

datatype double = Double int int

definition double_div :: "int \<Rightarrow> int \<Rightarrow> double" where
  "double_div a b =
     (let t = bitlen a - bitlen b;
          e = (if b * 2 ^ nat t \<le> a * 2 ^ nat (- t) then t else t - 1);
          num = a * 2 ^ nat (52 - e);
          den = b * 2 ^ nat (e - 52);
          f = num div den;
          r = num mod den;
          m = (if 2 * r < den then f
               else if den < 2 * r then f + 1
               else if even f then f else f + 1)
      in if m = 2 ^ 53 then Double (2 ^ 52) (e - 51) else Double m (e - 52))"

definition ChanceOutcomes :: "QwintoState \<Rightarrow> error + (int \<times> double) list" where
  "ChanceOutcomes s =
     (if \<not> IsChanceNode s then Inl SpielFatalError
      else
        let num_dice = of_bool ((dice s AND kOrange) \<noteq> kInvalidDie)
                     + of_bool ((dice s AND kYellow) \<noteq> kInvalidDie)
                     + of_bool ((dice s AND kPurple) \<noteq> kInvalidDie)
        in if \<not> (1::int) \<le> num_dice then Inl SpielFatalError
        else if \<not> num_dice \<le> kDefaultNumDice then Inl SpielFatalError
        else Inr
          (if num_dice = 1 then
             [(1, double_div 1 6), (2, double_div 1 6), (3, double_div 1 6),
              (4, double_div 1 6), (5, double_div 1 6), (6, double_div 1 6)]
           else if num_dice = 2 then
             [(2, double_div 1 36), (3, double_div 2 36), (4, double_div 3 36),
              (5, double_div 4 36), (6, double_div 5 36), (7, double_div 6 36),
              (8, double_div 5 36), (9, double_div 4 36), (10, double_div 3 36),
              (11, double_div 2 36), (12, double_div 1 36)]
           else if num_dice = 3 then
             [(3, double_div 1 216), (4, double_div 3 216), (5, double_div 6 216),
              (6, double_div 10 216), (7, double_div 15 216), (8, double_div 21 216),
              (9, double_div 25 216), (10, double_div 27 216), (11, double_div 27 216),
              (12, double_div 25 216), (13, double_div 21 216), (14, double_div 15 216),
              (15, double_div 10 216), (16, double_div 6 216), (17, double_div 3 216),
              (18, double_div 1 216)]
           else []))"

text \<open>
  Modelled from the spec: \<open>LegalChanceOutcomes\<close> of the host framework, the action
  ids of the pairs that \<open>ChanceOutcomes\<close> returns, in the same order.
\<close>

definition LegalChanceOutcomes :: "QwintoState \<Rightarrow> error + int list" where
  "LegalChanceOutcomes s =
     (case ChanceOutcomes s of Inl e \<Rightarrow> Inl e | Inr outcomes \<Rightarrow> Inr (map fst outcomes))"

section \<open>Legal actions\<close>

text \<open>
  In the submit phase \<open>scores\<close> is an iterator to the first cell of the asking player's
  board and \<open>row\<close> one to the first field of a row. An iterator is modelled as the
  suffix of the vector that starts where it points: \<open>scores[c]\<close> is \<open>board ! c\<close>, and
  \<open>std::all_of(row, row + k, f)\<close> is \<open>list_all f (take k row)\<close>.
\<close>

definition is_valid_column :: "int list \<Rightarrow> int \<Rightarrow> int \<Rightarrow> bool" where
  "is_valid_column board outcome c =
     (if c = 8 \<or> c = 18 then True
      else if c = 13 then board ! 22 \<noteq> outcome
      else if c = 22 then board ! 13 \<noteq> outcome
      else if c = 9 \<or> c = 19 \<or> c = 2 \<or> c = 12 \<or> c = 7 \<or> c = 17 then
        board ! nat c \<noteq> outcome \<and> board ! nat ((c + 10) mod 20) \<noteq> outcome
      else if c = 3 \<or> c = 23 then
        board ! nat c \<noteq> outcome \<and> board ! nat ((c + 20) mod 40) \<noteq> outcome
      else
        board ! nat c \<noteq> outcome \<and> board ! nat ((c + 10) mod 30) \<noteq> outcome \<and>
        board ! nat ((c + 20) mod 30) \<noteq> outcome)"

text \<open>
  One iteration of the loop over the fields \<open>i = 0, ..., 26\<close>: \<open>True\<close> when the
  iteration reaches \<open>movelist.push_back(i)\<close>, \<open>False\<close> when it leaves by a \<open>continue\<close>.
\<close>

definition field_legal :: "QwintoState \<Rightarrow> int list \<Rightarrow> int \<Rightarrow> bool" where
  "field_legal s board i =
     (let die = (if i div kDefaultNumFields = 0 then kOrange
                 else if i div kDefaultNumFields = 1 then kYellow
                 else if i div kDefaultNumFields = 2 then kPurple
                 else kInvalidDie)
      in if (dice s AND die) = kInvalidDie then False
         else if board ! nat i \<noteq> 0 then False
         else
           let row = drop (nat ((i div kDefaultNumFields) * kDefaultNumFields)) board;
               offset = i mod kDefaultNumFields
           in if \<not> list_all (\<lambda>a. a < dice_outcome s) (take (nat offset) row) \<or>
                 \<not> list_all (\<lambda>a. a = 0 \<or> a > dice_outcome s)
                     (drop (nat (offset + 1)) (take (nat kDefaultNumFields) row))
              then False
              else is_valid_column board (dice_outcome s) i)"

text \<open>
  The body of \<open>LegalActions\<close> for an argument that is none of the three sentinels.
  \<open>std::sort\<close> on integers is \<open>sort\<close>.
\<close>

definition LegalActionsPlayer :: "game_consts \<Rightarrow> QwintoState \<Rightarrow> int \<Rightarrow> error + int list" where
  "LegalActionsPlayer K s p =
     (if \<not> 0 \<le> p then Inl SpielFatalError
      else if \<not> p < num_players s then Inl SpielFatalError
      else if IsTerminal s then Inr []
      else Inr (sort
        (case phase s of
           kSelectDice \<Rightarrow>
             [kOrange, kPurple, kYellow, kOrange OR kPurple, kOrange OR kYellow,
              kPurple OR kYellow, kOrange OR kPurple OR kYellow]
         | kRollDice \<Rightarrow>
             (if num_dice_rolls s < kDefaultNumDiceRolls K then [0] else []) @ [1]
         | kSubmitPoints \<Rightarrow>
             (let board = drop (nat (p * (kDefaultNumDice * kDefaultNumFields + 1))) (scores s)
              in filter (field_legal s board) [0 .. kDefaultNumDice * kDefaultNumFields - 1]
                 @ [if p = current_player s then kActionMiss K else kActionSkip K]))))"

text \<open>
  Modelled from the spec: the host framework's helper behind
  \<open>LegalActions(kSimultaneousPlayerId)\<close>. A joint action is one legal action per
  player; the helper numbers the joint actions \<open>0, 1, ..., m - 1\<close>, where \<open>m\<close> is the
  product of the numbers of legal actions of the players.
\<close>

fun num_joint_actions :: "game_consts \<Rightarrow> QwintoState \<Rightarrow> int list \<Rightarrow> error + int" where
  "num_joint_actions K s [] = Inr 1"
| "num_joint_actions K s (p # ps) =
     (case LegalActionsPlayer K s p of
        Inl e \<Rightarrow> Inl e
      | Inr acts \<Rightarrow>
          (case num_joint_actions K s ps of
             Inl e \<Rightarrow> Inl e
           | Inr m \<Rightarrow> Inr (int (length acts) * m)))"

definition LegalFlatJointActions :: "game_consts \<Rightarrow> QwintoState \<Rightarrow> error + int list" where
  "LegalFlatJointActions K s =
     (case num_joint_actions K s [0 .. num_players s - 1] of
        Inl e \<Rightarrow> Inl e
      | Inr m \<Rightarrow> Inr [0 .. m - 1])"

definition LegalActions :: "game_consts \<Rightarrow> QwintoState \<Rightarrow> int \<Rightarrow> error + int list" where
  "LegalActions K s p =
     (if p = kSimultaneousPlayerId then LegalFlatJointActions K s
      else if p = kChancePlayerId then LegalChanceOutcomes s
      else if p = kTerminalPlayerId then Inr []
      else LegalActionsPlayer K s p)"

section \<open>Applying actions\<close>

text \<open>
  A write \<open>scores_[idx] = f(scores_[idx])\<close>. Outside the vector the C++ program has no
  defined behaviour.
\<close>

definition modify_score :: "int list \<Rightarrow> int \<Rightarrow> (int \<Rightarrow> int) \<Rightarrow> error + int list" where
  "modify_score sc idx f =
     (if 0 \<le> idx \<and> idx < int (length sc) then Inr (sc[nat idx := f (sc ! nat idx)])
      else Inl UndefinedBehaviour)"

text \<open>
  The loop of \<open>DoApplyActions\<close> over the players \<open>p, p + 1, ...\<close>, with the actions
  that are left; the size check before the loop makes the two run in step.
\<close>

fun submit_loop ::
  "game_consts \<Rightarrow> int \<Rightarrow> int \<Rightarrow> int \<Rightarrow> int list \<Rightarrow> int list \<Rightarrow> error + int list" where
  "submit_loop K cur outcome p [] sc = Inr sc"
| "submit_loop K cur outcome p (a # as) sc =
     (if a = kActionSkip K then
        (if p \<noteq> cur then submit_loop K cur outcome (p + 1) as sc
         else Inl SpielFatalError)
      else if a = kActionMiss K then
        (if p = cur then
           (case modify_score sc (p * (kDefaultNumDice * kDefaultNumFields + 1) + a)
                   (\<lambda>v. v + kDefaultMissPoints) of
              Inl e \<Rightarrow> Inl e
            | Inr sc' \<Rightarrow> submit_loop K cur outcome (p + 1) as sc')
         else Inl SpielFatalError)
      else
        (case modify_score sc (p * (kDefaultNumDice * kDefaultNumFields + 1) + a)
                (\<lambda>v. outcome) of
           Inl e \<Rightarrow> Inl e
         | Inr sc' \<Rightarrow> submit_loop K cur outcome (p + 1) as sc'))"

text \<open>
  \<open>(current_player_ + 1) % num_players_\<close>: the remainder of C++ truncates towards
  zero, and a zero divisor has no defined behaviour.
\<close>

definition cpp_rem :: "int \<Rightarrow> int \<Rightarrow> int" where
  "cpp_rem a b = sgn a * (\<bar>a\<bar> mod \<bar>b\<bar>)"

definition DoApplyActions :: "game_consts \<Rightarrow> QwintoState \<Rightarrow> int list \<Rightarrow> error + QwintoState" where
  "DoApplyActions K s actions =
     (if int (length actions) \<noteq> num_players s then Inl SpielFatalError
      else if phase s \<noteq> kSubmitPoints then Inl SpielFatalError
      else
        (case submit_loop K (current_player s) (dice_outcome s) 0 actions (scores s) of
           Inl e \<Rightarrow> Inl e
         | Inr sc' \<Rightarrow>
             if num_players s = 0 then Inl UndefinedBehaviour
             else
               let next = cpp_rem (current_player s + 1) (num_players s)
               in Inr (s\<lparr>scores := sc', phase := kSelectDice,
                         current_player := next, player := next\<rparr>)))"

text \<open>
  Modelled from the spec: \<open>ApplyFlatJointAction\<close> of the host framework, which
  unflattens the id of a joint action into one action per player, each taken from that
  player's legal actions, and hands them to \<open>DoApplyActions\<close>. The numbering is the
  framework's own (mixed radix over the players); no theorem below depends on it.
\<close>

fun unflatten :: "game_consts \<Rightarrow> QwintoState \<Rightarrow> int \<Rightarrow> int list \<Rightarrow> error + int list" where
  "unflatten K s flat [] = (if flat = 0 then Inr [] else Inl SpielFatalError)"
| "unflatten K s flat (p # ps) =
     (case LegalActionsPlayer K s p of
        Inl e \<Rightarrow> Inl e
      | Inr acts \<Rightarrow>
          if acts = [] \<or> flat < 0 then Inl UndefinedBehaviour
          else
            (case unflatten K s (flat div int (length acts)) ps of
               Inl e \<Rightarrow> Inl e
             | Inr as \<Rightarrow> Inr (acts ! nat (flat mod int (length acts)) # as)))"

definition ApplyFlatJointAction :: "game_consts \<Rightarrow> QwintoState \<Rightarrow> int \<Rightarrow> error + QwintoState" where
  "ApplyFlatJointAction K s flat =
     (case unflatten K s flat [0 .. num_players s - 1] of
        Inl e \<Rightarrow> Inl e
      | Inr actions \<Rightarrow> DoApplyActions K s actions)"

definition DoApplyAction :: "game_consts \<Rightarrow> QwintoState \<Rightarrow> int \<Rightarrow> error + QwintoState" where
  "DoApplyAction K s action =
     (if IsSimultaneousNode s then ApplyFlatJointAction K s action
      else if IsChanceNode s then
        (if phase s \<noteq> kRollDice then Inl SpielFatalError
         else Inr (s\<lparr>dice_outcome := action, player := current_player s\<rparr>))
      else if \<not> 0 \<le> player s then Inl SpielFatalError
      else if \<not> player s < num_players s then Inl SpielFatalError
      else
        (case phase s of
           kSelectDice \<Rightarrow>
             Inr (s\<lparr>dice := action, player := kChancePlayerId, phase := kRollDice,
                   num_dice_rolls := 1\<rparr>)
         | kRollDice \<Rightarrow>
             if action = 0 then
               (if \<not> num_dice_rolls s < kDefaultNumDiceRolls K then Inl SpielFatalError
                else Inr (s\<lparr>num_dice_rolls := num_dice_rolls s + 1,
                           player := kChancePlayerId\<rparr>))
             else Inr (s\<lparr>phase := kSubmitPoints, player := kSimultaneousPlayerId\<rparr>)
         | kSubmitPoints \<Rightarrow> Inl SpielFatalError))"

section \<open>Returns\<close>

text \<open>
  The returns are \<open>double\<close>s that only ever hold sums of the integer cells; they are
  modelled as integers. \<open>row_return\<close> is the block repeated for the three rows, with
  \<open>row\<close> the iterator \<open>scores\<close> after zero, one or two steps of \<open>kDefaultNumFields\<close>.
\<close>

definition row_return :: "int list \<Rightarrow> int" where
  "row_return row =
     (let count = int (length (filter (\<lambda>a. a > 0) (take (nat kDefaultNumFields) row)))
      in if count = kDefaultNumFields then row ! nat (kDefaultNumFields - 1) else count)"

definition player_return :: "QwintoState \<Rightarrow> int \<Rightarrow> int" where
  "player_return s p =
     (let board = drop (nat (p * (kDefaultNumDice * kDefaultNumFields + 1))) (scores s)
      in row_return board
       + row_return (drop (nat kDefaultNumFields) board)
       + row_return (drop (nat kDefaultNumFields) (drop (nat kDefaultNumFields) board))
       + (if board ! 0 > 0 \<and> board ! 10 > 0 \<and> board ! 20 > 0 then board ! 20 else 0)
       + (if board ! 1 > 0 \<and> board ! 11 > 0 \<and> board ! 21 > 0 then board ! 1 else 0)
       + (if board ! 4 > 0 \<and> board ! 14 > 0 \<and> board ! 24 > 0 then board ! 4 else 0)
       + (if board ! 5 > 0 \<and> board ! 15 > 0 \<and> board ! 25 > 0 then board ! 15 else 0)
       + (if board ! 6 > 0 \<and> board ! 16 > 0 \<and> board ! 26 > 0 then board ! 26 else 0)
       + board ! nat (kDefaultNumDice * kDefaultNumFields))"

definition Returns :: "QwintoState \<Rightarrow> int list" where
  "Returns s =
     (if \<not> IsTerminal s then replicate (nat (num_players s)) 0
      else map (player_return s) [0 .. num_players s - 1])"

section \<open>Observation tensor\<close>

definition ObservationTensorShape :: "game_consts \<Rightarrow> int \<Rightarrow> int list" where
  "ObservationTensorShape K n =
     [3 + kDefaultNumDiceRolls K + kDefaultNumDice + 18 + n
        + n * (kDefaultNumDice * kDefaultNumFields + 1)]"

text \<open>
  Modelled from the spec: \<open>ObservationTensorSize\<close> of the host framework, the number
  of values of a tensor of the declared shape.
\<close>

definition ObservationTensorSize :: "game_consts \<Rightarrow> int \<Rightarrow> int" where
  "ObservationTensorSize K n = prod_list (ObservationTensorShape K n)"

text \<open>The values pushed, in order; booleans and integers are converted to \<open>double\<close>.\<close>

definition observation_values :: "game_consts \<Rightarrow> QwintoState \<Rightarrow> real list" where
  "observation_values K s =
     [of_bool (phase s = kSelectDice), of_bool (phase s = kRollDice),
      of_bool (phase s = kSubmitPoints)]
     @ map (\<lambda>i. of_bool (i = num_dice_rolls s)) [0 .. kDefaultNumDiceRolls K - 1]
     @ [of_int (dice s AND kOrange), of_int (dice s AND kYellow), of_int (dice s AND kPurple)]
     @ map (\<lambda>i. of_bool (i = dice_outcome s)) [1 .. 18]
     @ map (\<lambda>p. of_bool (p = current_player s)) [0 .. num_players s - 1]
     @ map of_int (scores s)"

definition ObservationTensor :: "game_consts \<Rightarrow> QwintoState \<Rightarrow> int \<Rightarrow> error + real list" where
  "ObservationTensor K s p =
     (if \<not> 0 \<le> p then Inl SpielFatalError
      else if \<not> p < num_players s then Inl SpielFatalError
      else
        let values = observation_values K s
        in if int (length values) \<noteq> ObservationTensorSize K (num_players s)
           then Inl SpielFatalError
           else Inr values)"

section \<open>Reachable states\<close>

text \<open>
  Modelled from the spec: how the host framework drives a game. At a chance node or at a
  player's own decision it applies one action of \<open>LegalActions\<close> for the awaited
  player through \<open>DoApplyAction\<close>; in the submit phase it applies a joint action, one
  action per player ordered by player index and each taken from that player's
  \<open>LegalActions\<close>, through \<open>DoApplyActions\<close>. A game has between 1 and 10 players.
\<close>

definition legal_component :: "game_consts \<Rightarrow> QwintoState \<Rightarrow> int \<Rightarrow> int \<Rightarrow> bool" where
  "legal_component K s p a =
     (case LegalActions K s p of Inl e \<Rightarrow> False | Inr acts \<Rightarrow> a \<in> set acts)"

definition legal_joint :: "game_consts \<Rightarrow> QwintoState \<Rightarrow> int list \<Rightarrow> bool" where
  "legal_joint K s actions \<longleftrightarrow>
     int (length actions) = num_players s \<and>
     list_all (\<lambda>p. legal_component K s p (actions ! nat p)) [0 .. num_players s - 1]"

inductive reachable :: "game_consts \<Rightarrow> int \<Rightarrow> QwintoState \<Rightarrow> bool" for K n where
  initial: "1 \<le> n \<Longrightarrow> n \<le> 10 \<Longrightarrow> reachable K n (NewInitialState n)"
| apply_action:
    "reachable K n s \<Longrightarrow> CurrentPlayer s \<noteq> kSimultaneousPlayerId \<Longrightarrow>
     legal_component K s (CurrentPlayer s) a \<Longrightarrow> DoApplyAction K s a = Inr s' \<Longrightarrow>
     reachable K n s'"
| apply_actions:
    "reachable K n s \<Longrightarrow> CurrentPlayer s = kSimultaneousPlayerId \<Longrightarrow>
     legal_joint K s actions \<Longrightarrow> DoApplyActions K s actions = Inr s' \<Longrightarrow>
     reachable K n s'"

text \<open>
  A play: a list of moves, each checked to be legal where it is made. It is the executable
  counterpart of \<open>reachable\<close> and builds the example states.
\<close>

datatype move = Single int | Joint "int list"

fun play :: "game_consts \<Rightarrow> QwintoState \<Rightarrow> move list \<Rightarrow> QwintoState option" where
  "play K s [] = Some s"
| "play K s (Single a # ms) =
     (if CurrentPlayer s \<noteq> kSimultaneousPlayerId \<and> legal_component K s (CurrentPlayer s) a
      then (case DoApplyAction K s a of Inl e \<Rightarrow> None | Inr s' \<Rightarrow> play K s' ms)
      else None)"
| "play K s (Joint actions # ms) =
     (if CurrentPlayer s = kSimultaneousPlayerId \<and> legal_joint K s actions
      then (case DoApplyActions K s actions of Inl e \<Rightarrow> None | Inr s' \<Rightarrow> play K s' ms)
      else None)"

section \<open>Notions used in the statements\<close>

text \<open>Cell \<open>k\<close> of the board of player \<open>p\<close> in the flat vector.\<close>

definition cell :: "int list \<Rightarrow> int \<Rightarrow> int \<Rightarrow> int" where
  "cell sc p k = sc ! nat (p * 28 + k)"

text \<open>The board of player \<open>p\<close>, and row \<open>r\<close> (0, 1 or 2) of that board.\<close>

definition board_of :: "QwintoState \<Rightarrow> int \<Rightarrow> int list" where
  "board_of s p = take 28 (drop (nat (p * 28)) (scores s))"

definition row_of :: "QwintoState \<Rightarrow> int \<Rightarrow> int \<Rightarrow> int list" where
  "row_of s p r = take 9 (drop (nat (p * 28 + r * 9)) (scores s))"

text \<open>
  What a component \<open>a\<close> of a joint action does to cell \<open>k\<close> of its player's board,
  which held \<open>v\<close>.
\<close>

definition component_effect :: "game_consts \<Rightarrow> int \<Rightarrow> int \<Rightarrow> int \<Rightarrow> int \<Rightarrow> int" where
  "component_effect K outcome a k v =
     (if a = kActionSkip K then v
      else if a = kActionMiss K then (if k = a then v + kDefaultMissPoints else v)
      else if k = a then outcome else v)"

text \<open>The two checks that \<open>DoApplyActions\<close> makes on the component of player \<open>p\<close>.\<close>

definition component_checked :: "game_consts \<Rightarrow> int \<Rightarrow> int \<Rightarrow> int \<Rightarrow> bool" where
  "component_checked K cur p a \<longleftrightarrow>
     (a = kActionSkip K \<longrightarrow> p \<noteq> cur) \<and>
     (a \<noteq> kActionSkip K \<and> a = kActionMiss K \<longrightarrow> p = cur)"

text \<open>
  The sums of \<open>n\<close> fair dice, by enumeration of all \<open>6 ^ n\<close> rolls: \<open>num_ways n k\<close>
  rolls have sum \<open>k\<close>.
\<close>

fun dice_rolls :: "nat \<Rightarrow> int list list" where
  "dice_rolls 0 = [Nil]"
| "dice_rolls (Suc n) = concat (map (\<lambda>d. map ((#) d) (dice_rolls n)) [1, 2, 3, 4, 5, 6])"

definition num_ways :: "nat \<Rightarrow> int \<Rightarrow> nat" where
  "num_ways n k = length (filter (\<lambda>r. sum_list r = k) (dice_rolls n))"

definition dice_sum_pmf :: "nat \<Rightarrow> (int \<times> real) list" where
  "dice_sum_pmf n = map (\<lambda>k. (k, real (num_ways n k) / 6 ^ n)) [int n .. 6 * int n]"

definition num_selected_dice :: "int \<Rightarrow> nat" where
  "num_selected_dice d =
     length (filter (\<lambda>die. (d AND die) \<noteq> kInvalidDie) [kOrange, kYellow, kPurple])"

text \<open>
  The real number that a double stands for, and what it means for a double to be a
  nearest double of a real number: the mantissa has 53 bits and the distance is at most
  half a unit in the last place.
\<close>

definition double_val :: "double \<Rightarrow> real" where
  "double_val d =
     (case d of Double m e \<Rightarrow>
        if 0 \<le> e then of_int (m * 2 ^ nat e) else of_int m / 2 ^ nat (- e))"

definition nearest_double :: "double \<Rightarrow> real \<Rightarrow> bool" where
  "nearest_double d x \<longleftrightarrow>
     (case d of Double m e \<Rightarrow>
        2 ^ 52 \<le> m \<and> m < 2 ^ 53 \<and> \<bar>double_val d - x\<bar> * 2 \<le> double_val (Double 1 e))"

text \<open>The power of two with an integer exponent, as a real number.\<close>

definition pow2 :: "int \<Rightarrow> real" where
  "pow2 e = (if 0 \<le> e then 2 ^ nat e else 1 / 2 ^ nat (- e))"

text \<open>
  The pairing table as the spec words it: 8 and 18 are unconstrained, 13 and 22 pair
  with each other, six cells pair with one cell at \<open>(c + 10) mod 20\<close>, 3 and 23 with one
  cell at \<open>(c + 20) mod 40\<close>, every other cell with the two cells at \<open>(c + 10) mod 30\<close>
  and \<open>(c + 20) mod 30\<close>.
\<close>

definition linked_cells :: "int \<Rightarrow> int list" where
  "linked_cells c =
     (if c = 8 \<or> c = 18 then []
      else if c = 13 then [22]
      else if c = 22 then [13]
      else if c \<in> {9, 19, 2, 12, 7, 17} then [(c + 10) mod 20]
      else if c \<in> {3, 23} then [(c + 20) mod 40]
      else [(c + 10) mod 30, (c + 20) mod 30])"

text \<open>
  The cells left and right of field \<open>i\<close> in its row, and the ordering condition on them:
  as the spec words it (left cells non-zero and smaller), and as the source checks it.
\<close>

definition left_of :: "int \<Rightarrow> int list" where
  "left_of i = [(i div 9) * 9 .. i - 1]"

definition right_of :: "int \<Rightarrow> int list" where
  "right_of i = [i + 1 .. (i div 9) * 9 + 8]"

definition order_as_specified :: "QwintoState \<Rightarrow> int \<Rightarrow> int \<Rightarrow> bool" where
  "order_as_specified s p i \<longleftrightarrow>
     list_all (\<lambda>j. cell (scores s) p j \<noteq> 0 \<and> cell (scores s) p j < dice_outcome s) (left_of i) \<and>
     list_all (\<lambda>j. cell (scores s) p j = 0 \<or> dice_outcome s < cell (scores s) p j) (right_of i)"

definition order_as_checked :: "QwintoState \<Rightarrow> int \<Rightarrow> int \<Rightarrow> bool" where
  "order_as_checked s p i \<longleftrightarrow>
     list_all (\<lambda>j. cell (scores s) p j < dice_outcome s) (left_of i) \<and>
     list_all (\<lambda>j. cell (scores s) p j = 0 \<or> dice_outcome s < cell (scores s) p j) (right_of i)"

text \<open>
  The score of one board as the spec words it: per row the last field when the row is
  full and the number of filled fields otherwise, the designated member of each of the
  five diagonal triples that is filled, and the miss slot.
\<close>

definition row_contribution :: "int list \<Rightarrow> int" where
  "row_contribution row =
     (if list_all (\<lambda>v. v \<noteq> 0) row then last row
      else int (length (filter (\<lambda>v. v \<noteq> 0) row)))"

definition diagonals :: "(nat \<times> nat \<times> nat \<times> nat) list" where
  "diagonals = [(0, 10, 20, 20), (1, 11, 21, 1), (4, 14, 24, 4), (5, 15, 25, 15), (6, 16, 26, 26)]"

fun diagonal_bonus :: "int list \<Rightarrow> nat \<times> nat \<times> nat \<times> nat \<Rightarrow> int" where
  "diagonal_bonus board (a, b, c, m) =
     (if board ! a \<noteq> 0 \<and> board ! b \<noteq> 0 \<and> board ! c \<noteq> 0 then board ! m else 0)"

definition final_score :: "int list \<Rightarrow> int" where
  "final_score board =
     sum_list (map (\<lambda>r. row_contribution (take 9 (drop (9 * r) board))) [0, 1, 2])
     + sum_list (map (diagonal_bonus board) diagonals)
     + board ! 27"

text \<open>
  The invariants of the reachable states, on the turn counters and on one board seen as
  a function from cell index to value.
\<close>

definition turn_inv :: "int \<Rightarrow> QwintoState \<Rightarrow> bool" where
  "turn_inv n s \<longleftrightarrow>
     num_players s = n \<and> 1 \<le> n \<and> n \<le> 10 \<and> int (length (scores s)) = n * 28 \<and>
     0 \<le> current_player s \<and> current_player s < n \<and>
     0 \<le> dice_outcome s \<and> dice_outcome s \<le> 18 \<and>
     (phase s \<noteq> kSelectDice \<longrightarrow> 1 \<le> dice s \<and> dice s \<le> 7) \<and>
     (player s = kChancePlayerId \<longrightarrow> phase s = kRollDice)"

definition cells_bounded :: "(int \<Rightarrow> int) \<Rightarrow> bool" where
  "cells_bounded f \<longleftrightarrow>
     (\<forall>k. 0 \<le> k \<and> k \<le> 26 \<longrightarrow> 0 \<le> f k \<and> f k \<le> 18) \<and>
     - 20 \<le> f 27 \<and> f 27 \<le> 0 \<and> f 27 mod 5 = 0"

definition rows_increasing :: "(int \<Rightarrow> int) \<Rightarrow> bool" where
  "rows_increasing f \<longleftrightarrow>
     (\<forall>i j. 0 \<le> i \<and> i < j \<and> j \<le> 26 \<and> i div 9 = j div 9 \<and> f i \<noteq> 0 \<and> f j \<noteq> 0
        \<longrightarrow> f i < f j)"

definition links_distinct :: "(int \<Rightarrow> int) \<Rightarrow> bool" where
  "links_distinct f \<longleftrightarrow>
     (\<forall>c d. 0 \<le> c \<and> c \<le> 26 \<and> d \<in> set (linked_cells c) \<and> f c \<noteq> 0 \<longrightarrow> f c \<noteq> f d)"

definition board_ok :: "(int \<Rightarrow> int) \<Rightarrow> bool" where
  "board_ok f \<longleftrightarrow> cells_bounded f \<and> rows_increasing f \<and> links_distinct f"

definition boards_inv :: "int \<Rightarrow> QwintoState \<Rightarrow> bool" where
  "boards_inv n s \<longleftrightarrow> (\<forall>p. 0 \<le> p \<and> p < n \<longrightarrow> board_ok (cell (scores s) p))"

text \<open>What the loop of \<open>LegalActions\<close> has checked of a field it lists.\<close>

definition cell_legal :: "int \<Rightarrow> (int \<Rightarrow> int) \<Rightarrow> int \<Rightarrow> bool" where
  "cell_legal outcome f i \<longleftrightarrow>
     f i = 0 \<and>
     (\<forall>j. (i div 9) * 9 \<le> j \<and> j < i \<longrightarrow> f j < outcome) \<and>
     (\<forall>j. i < j \<and> j < (i div 9) * 9 + 9 \<longrightarrow> f j = 0 \<or> outcome < f j) \<and>
     (\<forall>d\<in>set (linked_cells i). f d \<noteq> outcome)"

section \<open>Example constants and states\<close>

text \<open>
  Values for the three constants that satisfy \<open>sentinels_ok\<close>, and a game of \<open>n\<close>
  players after the first dice selection (orange), roll (3) and acceptance.
  In \<open>all_selected\<close> a single player has selected all three dice. In \<open>filled\<close> a single
  player has written 3 into field 5 and 5 into field 7 of the orange row and 4 into
  field 15 of the yellow row, which a column links to field 5.
\<close>

definition example_consts :: game_consts where
  "example_consts = \<lparr>kActionSkip = 28, kActionMiss = 27, kDefaultNumDiceRolls = 2\<rparr>"

definition selected :: "int \<Rightarrow> QwintoState" where
  "selected n = (NewInitialState n)
     \<lparr>dice := 1, player := kChancePlayerId, phase := kRollDice, num_dice_rolls := 1\<rparr>"

definition rolled :: "int \<Rightarrow> QwintoState" where
  "rolled n = (selected n)\<lparr>dice_outcome := 3, player := 0\<rparr>"

definition submitting :: "int \<Rightarrow> QwintoState" where
  "submitting n = (rolled n)\<lparr>phase := kSubmitPoints, player := kSimultaneousPlayerId\<rparr>"

definition all_selected :: QwintoState where
  "all_selected = (NewInitialState 1)
     \<lparr>dice := 7, player := kChancePlayerId, phase := kRollDice, num_dice_rolls := 1\<rparr>"

definition filled :: QwintoState where
  "filled =
     \<lparr>num_players = 1, player = 0, current_player = 0, num_dice_rolls = 1, dice = 4,
      dice_outcome = 4, phase = kSelectDice,
      scores = (replicate 28 0)[5 := 3, 7 := 5, 15 := 4]\<rparr>"

text \<open>
  A finished game of one player: a 3 in field 0 in the first turn, then four misses.
\<close>

definition finished :: QwintoState where
  "finished =
     \<lparr>num_players = 1, player = 0, current_player = 0, num_dice_rolls = 1, dice = 1,
      dice_outcome = 3, phase = kSelectDice, scores = 3 # replicate 26 0 @ [- 20]\<rparr>"

text \<open>
  The scenario of the spec: three players, the first has taken a miss in the first turn,
  and the second is now the active player of a submit phase.
\<close>

definition scenario :: QwintoState where
  "scenario =
     \<lparr>num_players = 3, player = kSimultaneousPlayerId, current_player = 1,
      num_dice_rolls = 1, dice = 1, dice_outcome = 3, phase = kSubmitPoints,
      scores = (replicate 84 0)[27 := - 5]\<rparr>"

section \<open>Basic facts\<close>

lemmas game_defs = kInvalidDie_def kOrange_def kPurple_def kYellow_def kDefaultNumDice_def
  kDefaultNumFields_def kDefaultMissPoints_def kDefaultTerminationPoints_def

lemmas player_defs = kChancePlayerId_def kSimultaneousPlayerId_def kTerminalPlayerId_def

lemma IsTerminal_iff:
  "IsTerminal s \<longleftrightarrow> (\<exists>p. 0 \<le> p \<and> p < num_players s \<and> cell (scores s) p 27 \<le> - 20)"
proof -
  have "(p + 1) * 28 - 1 = p * 28 + 27" for p :: int by simp
  then show ?thesis
    unfolding IsTerminal_def Let_def list_ex_iff cell_def game_defs
    by (auto simp: add.commute)
qed

lemma IsTerminal_cong:
  "num_players s' = num_players s \<Longrightarrow> scores s' = scores s \<Longrightarrow> IsTerminal s' = IsTerminal s"
  by (simp add: IsTerminal_def)

section \<open>The chance table is the distribution of the dice sums\<close>

lemma ways1: "map (num_ways 1) [1, 2, 3, 4, 5, 6] = [1, 1, 1, 1, 1, 1]"
  by code_simp

lemma ways2:
  "map (num_ways 2) [2, 3, 4, 5, 6, 7, 8, 9, 10, 11, 12] = [1, 2, 3, 4, 5, 6, 5, 4, 3, 2, 1]"
  by code_simp

lemma ways3:
  "map (num_ways 3) [3, 4, 5, 6, 7, 8, 9, 10, 11, 12, 13, 14, 15, 16, 17, 18]
    = [1, 3, 6, 10, 15, 21, 25, 27, 27, 25, 21, 15, 10, 6, 3, 1]"
  by code_simp

lemma pmf1: "dice_sum_pmf 1 = [(1, 1/6), (2, 1/6), (3, 1/6), (4, 1/6), (5, 1/6), (6, 1/6)]"
  using ways1 by (simp add: dice_sum_pmf_def upto_rec1)

lemma pmf2:
  "dice_sum_pmf 2 = [(2, 1/36), (3, 2/36), (4, 3/36), (5, 4/36), (6, 5/36), (7, 6/36),
     (8, 5/36), (9, 4/36), (10, 3/36), (11, 2/36), (12, 1/36)]"
  using ways2 by (simp add: dice_sum_pmf_def upto_rec1)

lemma pmf3:
  "dice_sum_pmf 3 = [(3, 1/216), (4, 3/216), (5, 6/216), (6, 10/216), (7, 15/216),
     (8, 21/216), (9, 25/216), (10, 27/216), (11, 27/216), (12, 25/216),
     (13, 21/216), (14, 15/216), (15, 10/216), (16, 6/216), (17, 3/216), (18, 1/216)]"
  using ways3 by (simp add: dice_sum_pmf_def upto_rec1)

lemma num_selected_dice_le: "num_selected_dice d \<le> 3"
  by (simp add: num_selected_dice_def)

lemma num_selected_dice_cases:
  assumes "1 \<le> num_selected_dice d"
  obtains "num_selected_dice d = 1" | "num_selected_dice d = 2" | "num_selected_dice d = 3"
  using assms num_selected_dice_le [of d] by linarith

text \<open>
  \<open>double_div a b\<close> is the quotient of two positive integers rounded to a nearest double,
  ties to the even mantissa.
\<close>

lemma pow2_pos: "0 < pow2 e"
  by (simp add: pow2_def)

lemma pow2_add: "pow2 (x + y) = pow2 x * pow2 y"
proof -
  have "pow2 e = 2 powr (real_of_int e)" for e
  proof (cases "0 \<le> e")
    case True
    then have "2 powr (real_of_int e) = 2 powr (real (nat e))" by simp
    also have "\<dots> = 2 ^ nat e" by (rule powr_realpow) simp
    finally show ?thesis using True by (simp add: pow2_def)
  next
    case False
    then have "2 powr (real_of_int e) = 2 powr (- real (nat (- e)))" by simp
    also have "\<dots> = 1 / 2 powr (real (nat (- e)))" by (rule powr_minus_divide)
    also have "2 powr (real (nat (- e))) = 2 ^ nat (- e)" by (rule powr_realpow) simp
    finally show ?thesis using False by (simp add: pow2_def)
  qed
  then show ?thesis by (simp add: powr_add)
qed

lemma pow2_quot: "2 ^ nat k / 2 ^ nat (- k) = pow2 k"
  by (cases "0 \<le> k") (simp_all add: pow2_def)

lemma pow2_numeral: "pow2 52 = 2 ^ 52" "pow2 53 = 2 ^ 53" "pow2 0 = 1" "pow2 1 = 2"
  by (simp_all add: pow2_def)

lemma double_val_pow2: "double_val (Double m e) = of_int m * pow2 e"
  by (simp add: double_val_def pow2_def)

lemma bitlen_pow2:
  assumes "0 < x"
  shows "pow2 (bitlen x - 1) \<le> of_int x" "of_int x < pow2 (bitlen x)"
proof -
  have b: "1 \<le> bitlen x" using assms by (auto simp: bitlen_alt_def)
  from bitlen_bounds [OF assms]
  have "(2::int) ^ nat (bitlen x - 1) \<le> x" "x < 2 ^ nat (bitlen x)" by simp_all
  then have "real_of_int (2 ^ nat (bitlen x - 1)) \<le> of_int x"
    "real_of_int x < of_int (2 ^ nat (bitlen x))"
    by linarith+
  then show "pow2 (bitlen x - 1) \<le> of_int x" "of_int x < pow2 (bitlen x)"
    using b by (simp_all add: pow2_def)
qed

lemma exponent_test:
  assumes "0 < a" "0 < b"
  shows "b * 2 ^ nat t \<le> a * 2 ^ nat (- t) \<longleftrightarrow> pow2 t \<le> real_of_int a / real_of_int b"
proof (cases "0 \<le> t")
  case True
  define k where "k = nat t"
  have B: "0 < real_of_int b" using assms by simp
  have "b * 2 ^ k \<le> a \<longleftrightarrow> real_of_int (b * 2 ^ k) \<le> real_of_int a"
    by (simp only: of_int_le_iff)
  also have "\<dots> \<longleftrightarrow> 2 ^ k * real_of_int b \<le> real_of_int a"
    by (simp add: mult.commute)
  also have "\<dots> \<longleftrightarrow> 2 ^ k \<le> real_of_int a / real_of_int b"
    by (simp only: pos_le_divide_eq [OF B])
  finally show ?thesis using True by (simp add: pow2_def k_def)
next
  case False
  define k where "k = nat (- t)"
  have B: "0 < real_of_int b" using assms by simp
  have K: "0 < (2::real) ^ k" by simp
  have "b \<le> a * 2 ^ k \<longleftrightarrow> real_of_int b \<le> real_of_int (a * 2 ^ k)"
    by (simp only: of_int_le_iff)
  also have "\<dots> \<longleftrightarrow> real_of_int b \<le> real_of_int a * 2 ^ k"
    by simp
  also have "\<dots> \<longleftrightarrow> real_of_int b / 2 ^ k \<le> real_of_int a"
    by (simp only: pos_divide_le_eq [OF K])
  also have "real_of_int b / 2 ^ k = (1 / 2 ^ k) * real_of_int b" by simp
  also have "(1 / 2 ^ k) * real_of_int b \<le> real_of_int a
      \<longleftrightarrow> 1 / 2 ^ k \<le> real_of_int a / real_of_int b"
    by (simp only: pos_le_divide_eq [OF B])
  finally show ?thesis using False by (simp add: pow2_def k_def)
qed

lemma quotient_bounds:
  assumes "0 < a" "0 < b"
  defines "t \<equiv> bitlen a - bitlen b"
  shows "pow2 (t - 1) < real_of_int a / real_of_int b"
    "real_of_int a / real_of_int b < pow2 (t + 1)"
proof -
  define A B :: real where "A = of_int a" and "B = of_int b"
  have pos: "0 < A" "0 < B" using assms by (simp_all add: A_def B_def)
  have ba: "pow2 (bitlen a - 1) \<le> A" "A < pow2 (bitlen a)"
    using bitlen_pow2 [OF assms(1)] by (simp_all only: A_def)
  have bb: "pow2 (bitlen b - 1) \<le> B" "B < pow2 (bitlen b)"
    using bitlen_pow2 [OF assms(2)] by (simp_all only: B_def)
  have "t - 1 + bitlen b = bitlen a - 1" by (simp add: t_def)
  then have eq1: "pow2 (t - 1) * pow2 (bitlen b) = pow2 (bitlen a - 1)"
    by (simp only: pow2_add [symmetric])
  have "t + 1 + (bitlen b - 1) = bitlen a" by (simp add: t_def)
  then have eq2: "pow2 (t + 1) * pow2 (bitlen b - 1) = pow2 (bitlen a)"
    by (simp only: pow2_add [symmetric])
  have "pow2 (t - 1) * B < pow2 (t - 1) * pow2 (bitlen b)"
    using bb(2) pow2_pos [of "t - 1"] by (simp only: mult_less_cancel_left_pos)
  also have "\<dots> \<le> A" using ba(1) by (simp only: eq1)
  finally have "pow2 (t - 1) < A / B" by (simp only: pos_less_divide_eq [OF pos(2)])
  then show "pow2 (t - 1) < real_of_int a / real_of_int b" by (simp only: A_def B_def)
  have "A < pow2 (t + 1) * pow2 (bitlen b - 1)" using ba(2) by (simp only: eq2)
  also have "\<dots> \<le> pow2 (t + 1) * B"
    using bb(1) pow2_pos [of "t + 1"] by (simp only: mult_le_cancel_left_pos)
  finally have "A / B < pow2 (t + 1)" by (simp only: pos_divide_less_eq [OF pos(2)])
  then show "real_of_int a / real_of_int b < pow2 (t + 1)" by (simp only: A_def B_def)
qed

lemma leading_exponent:
  assumes "0 < a" "0 < b"
  defines "t \<equiv> bitlen a - bitlen b"
  defines "e \<equiv> (if b * 2 ^ nat t \<le> a * 2 ^ nat (- t) then t else t - 1)"
  shows "pow2 e \<le> real_of_int a / real_of_int b" "real_of_int a / real_of_int b < pow2 (e + 1)"
proof -
  note qb = quotient_bounds [OF assms(1,2), folded t_def]
  note et = exponent_test [OF assms(1,2), of t]
  have t1: "t - 1 + 1 = t" by simp
  show "pow2 e \<le> real_of_int a / real_of_int b"
  proof (cases "b * 2 ^ nat t \<le> a * 2 ^ nat (- t)")
    case True
    then have "e = t" by (simp only: e_def if_True)
    then show ?thesis using True et by (simp only:)
  next
    case False
    then have "e = t - 1" by (simp only: e_def if_False)
    then show ?thesis using qb(1) by (simp only: less_imp_le)
  qed
  show "real_of_int a / real_of_int b < pow2 (e + 1)"
  proof (cases "b * 2 ^ nat t \<le> a * 2 ^ nat (- t)")
    case True
    then have "e = t" by (simp only: e_def if_True)
    then show ?thesis using qb(2) by (simp only:)
  next
    case False
    then have "e = t - 1" by (simp only: e_def if_False)
    moreover have "real_of_int a / real_of_int b < pow2 t" using False et by (simp only: not_le)
    ultimately show ?thesis by (simp only: t1)
  qed
qed

lemma round_half_even:
  fixes num den :: int
  assumes "0 < den"
  defines "f \<equiv> num div den"
  defines "r \<equiv> num mod den"
  defines "m \<equiv> (if 2 * r < den then f
                 else if den < 2 * r then f + 1
                 else if even f then f else f + 1)"
  shows "\<bar>real_of_int m - real_of_int num / real_of_int den\<bar> * 2 \<le> 1"
    and "f = \<lfloor>real_of_int num / real_of_int den\<rfloor>"
    and "f \<le> m" and "m \<le> f + 1"
proof -
  define D where "D = real_of_int den"
  define R where "R = real_of_int r"
  have D: "0 < D" using assms(1) by (simp add: D_def)
  have r: "0 \<le> r" "r < den" using assms(1) by (simp_all add: r_def)
  have "num = f * den + r" by (simp add: f_def r_def)
  then have "real_of_int num = real_of_int f * D + R" by (simp add: D_def R_def)
  then have q: "real_of_int num / real_of_int den = real_of_int f + R / D"
    using D by (simp add: D_def [symmetric] field_simps)
  show "f = \<lfloor>real_of_int num / real_of_int den\<rfloor>"
    by (simp only: f_def floor_divide_of_int_eq)
  show "f \<le> m" "m \<le> f + 1" by (simp_all add: m_def)
  have R: "0 \<le> R" "R < D" using r by (simp_all add: R_def D_def)
  consider "2 * r < den" | "den < 2 * r" | "2 * r = den" by linarith
  then have "\<bar>real_of_int m - (real_of_int f + R / D)\<bar> * 2 \<le> 1"
  proof cases
    case 1
    then have m: "m = f" by (simp add: m_def)
    from 1 have "real_of_int (2 * r) < real_of_int den" by (simp only: of_int_less_iff)
    then have "2 * R < D" by (simp add: R_def D_def)
    then have "R / D * 2 < 1" using D by (simp add: field_simps)
    moreover have "0 \<le> R / D" using R D by simp
    ultimately show ?thesis by (simp add: m)
  next
    case 2
    then have m: "m = f + 1" by (simp add: m_def)
    from 2 have "real_of_int den < real_of_int (2 * r)" by (simp only: of_int_less_iff)
    then have "D < 2 * R" by (simp add: R_def D_def)
    then have "1 < R / D * 2" using D by (simp add: field_simps)
    moreover have "R / D < 1" using R D by simp
    ultimately show ?thesis by (simp add: m)
  next
    case 3
    then have "real_of_int (2 * r) = real_of_int den" by simp
    then have "2 * R = D" by (simp add: R_def D_def)
    then have h: "R / D * 2 = 1" using D by (simp add: field_simps)
    have "m = f \<or> m = f + 1" by (simp add: m_def)
    then show ?thesis using h by auto
  qed
  then show "\<bar>real_of_int m - real_of_int num / real_of_int den\<bar> * 2 \<le> 1"
    by (simp only: q)
qed

lemma double_div_nearest:
  assumes "0 < a" "0 < b"
  shows "nearest_double (double_div a b) (real_of_int a / real_of_int b)"
proof -
  define t where "t \<equiv> bitlen a - bitlen b"
  define e where "e \<equiv> (if b * 2 ^ nat t \<le> a * 2 ^ nat (- t) then t else t - 1)"
  define num where "num \<equiv> a * 2 ^ nat (52 - e)"
  define den where "den \<equiv> b * 2 ^ nat (e - 52)"
  define f where "f \<equiv> num div den"
  define r where "r \<equiv> num mod den"
  define m where "m \<equiv> (if 2 * r < den then f
                 else if den < 2 * r then f + 1
                 else if even f then f else f + 1)"
  define x where "x = real_of_int a / real_of_int b"
  define q where "q = real_of_int num / real_of_int den"
  have dd: "double_div a b = (if m = 2 ^ 53 then Double (2 ^ 52) (e - 51) else Double m (e - 52))"
    by (simp only: double_div_def Let_def m_def f_def r_def num_def den_def e_def t_def)
  have den: "0 < den" using assms(2) by (simp add: den_def)
  note rnd = round_half_even [OF den, of num, folded f_def r_def, folded m_def, folded q_def]
  have ex: "pow2 e \<le> x" "x < pow2 (e + 1)"
    using leading_exponent [OF assms, folded t_def, folded e_def] by (simp_all only: x_def)
  have "- (52 - e) = e - 52" by simp
  then have pq: "2 ^ nat (52 - e) / 2 ^ nat (e - 52) = pow2 (52 - e)"
    using pow2_quot [of "52 - e"] by (simp only:)
  have "q = (real_of_int a * 2 ^ nat (52 - e)) / (real_of_int b * 2 ^ nat (e - 52))"
    by (simp add: q_def num_def den_def)
  also have "\<dots> = x * (2 ^ nat (52 - e) / 2 ^ nat (e - 52))"
    by (simp add: x_def)
  finally have qx: "q = x * pow2 (52 - e)" by (simp only: pq)
  have "e + (52 - e) = 52" "e + 1 + (52 - e) = 53" "52 - e + (e - 52) = 0" by simp_all
  then have pp: "pow2 e * pow2 (52 - e) = 2 ^ 52" "pow2 (e + 1) * pow2 (52 - e) = 2 ^ 53"
    "pow2 (52 - e) * pow2 (e - 52) = 1"
    by (simp_all only: pow2_add [symmetric] pow2_numeral)
  have "pow2 e * pow2 (52 - e) \<le> x * pow2 (52 - e)"
    using ex(1) pow2_pos [of "52 - e"] by (simp only: mult_le_cancel_right_pos)
  then have qlo: "2 ^ 52 \<le> q" by (simp only: pp qx)
  have "x * pow2 (52 - e) < pow2 (e + 1) * pow2 (52 - e)"
    using ex(2) pow2_pos [of "52 - e"] by (simp only: mult_less_cancel_right_pos)
  then have qhi: "q < 2 ^ 53" by (simp only: pp qx)
  have "real_of_int (2 ^ 52) \<le> q" using qlo by simp
  then have "2 ^ 52 \<le> \<lfloor>q\<rfloor>" by (simp only: le_floor_iff)
  then have flo: "2 ^ 52 \<le> f" by (simp only: rnd(2))
  have "q < real_of_int (2 ^ 53)" using qhi by simp
  then have "\<lfloor>q\<rfloor> < 2 ^ 53" by (simp only: floor_less_iff)
  then have fhi: "f < 2 ^ 53" by (simp only: rnd(2))
  have mlo: "2 ^ 52 \<le> m" using flo rnd(3) by (rule order_trans)
  have mhi: "m \<le> 2 ^ 53" using fhi rnd(4) by linarith
  have "q * pow2 (e - 52) = x * (pow2 (52 - e) * pow2 (e - 52))" by (simp only: qx mult.assoc)
  then have xq: "x = q * pow2 (e - 52)" by (simp only: pp mult_1_right)
  have "\<bar>real_of_int m * pow2 (e - 52) - x\<bar> = \<bar>(real_of_int m - q) * pow2 (e - 52)\<bar>"
    by (simp only: xq left_diff_distrib)
  also have "\<dots> = \<bar>real_of_int m - q\<bar> * pow2 (e - 52)"
    using pow2_pos [of "e - 52"] by (simp only: abs_mult abs_of_pos)
  finally have "\<bar>real_of_int m * pow2 (e - 52) - x\<bar> * 2 = (\<bar>real_of_int m - q\<bar> * 2) * pow2 (e - 52)"
    by (simp only: mult.assoc mult.commute [of _ 2] mult.left_commute [of _ 2])
  also have "\<dots> \<le> 1 * pow2 (e - 52)"
    using rnd(1) pow2_pos [of "e - 52"] by (simp only: mult_le_cancel_right_pos)
  finally have err: "\<bar>real_of_int m * pow2 (e - 52) - x\<bar> * 2 \<le> pow2 (e - 52)"
    by (simp only: mult_1)
  have "e - 51 = 1 + (e - 52)" by simp
  then have up: "pow2 (e - 51) = 2 * pow2 (e - 52)"
    by (simp only: pow2_add pow2_numeral)
  show ?thesis
  proof (cases "m = 2 ^ 53")
    case True
    have eq: "real_of_int (2 ^ 52) * pow2 (e - 51) = real_of_int m * pow2 (e - 52)"
      by (simp add: True up)
    have "\<bar>real_of_int (2 ^ 52) * pow2 (e - 51) - x\<bar> * 2 \<le> pow2 (e - 52)"
      using err by (simp only: eq)
    also have "pow2 (e - 52) \<le> pow2 (e - 51)"
      using pow2_pos [of "e - 52"] by (simp add: up)
    finally have "\<bar>real_of_int (2 ^ 52) * pow2 (e - 51) - x\<bar> * 2 \<le> pow2 (e - 51)" .
    then have "nearest_double (Double (2 ^ 52) (e - 51)) x"
      by (simp add: nearest_double_def double_val_pow2)
    moreover have "double_div a b = Double (2 ^ 52) (e - 51)"
      by (simp only: dd True simp_thms if_True)
    ultimately show ?thesis by (simp only: x_def)
  next
    case False
    then have "m < 2 ^ 53" using mhi by linarith
    then have "nearest_double (Double m (e - 52)) x"
      using mlo err by (simp add: nearest_double_def double_val_pow2)
    moreover have "double_div a b = Double m (e - 52)"
      using False by (simp only: dd if_False)
    ultimately show ?thesis by (simp only: x_def)
  qed
qed

text \<open>The doubles that the literals of the source evaluate to.\<close>

lemma double_div_values:
  "double_div 1 6 = Double 6004799503160661 (- 55)"
  "double_div 1 36 = Double 8006399337547548 (- 58)"
  "double_div 2 36 = Double 8006399337547548 (- 57)"
  "double_div 3 36 = Double 6004799503160661 (- 56)"
  "double_div 4 36 = Double 8006399337547548 (- 56)"
  "double_div 5 36 = Double 5003999585967218 (- 55)"
  "double_div 6 36 = Double 6004799503160661 (- 55)"
  "double_div 1 216 = Double 5337599558365032 (- 60)"
  "double_div 3 216 = Double 8006399337547548 (- 59)"
  "double_div 6 216 = Double 8006399337547548 (- 58)"
  "double_div 10 216 = Double 6671999447956290 (- 57)"
  "double_div 15 216 = Double 5003999585967218 (- 56)"
  "double_div 21 216 = Double 7005599420354105 (- 56)"
  "double_div 25 216 = Double 8339999309945363 (- 56)"
  "double_div 27 216 = Double 4503599627370496 (- 55)"
  by code_simp+

lemma source_num_dice:
  "of_bool ((dice s AND kOrange) \<noteq> kInvalidDie)
      + of_bool ((dice s AND kYellow) \<noteq> kInvalidDie)
      + of_bool ((dice s AND kPurple) \<noteq> kInvalidDie) = int (num_selected_dice (dice s))"
  by (simp add: num_selected_dice_def)

lemma ChanceOutcomes_one:
  assumes "IsChanceNode s" "num_selected_dice (dice s) = 1"
  shows "ChanceOutcomes s = Inr
    [(1, Double 6004799503160661 (- 55)), (2, Double 6004799503160661 (- 55)),
     (3, Double 6004799503160661 (- 55)), (4, Double 6004799503160661 (- 55)),
     (5, Double 6004799503160661 (- 55)), (6, Double 6004799503160661 (- 55))]"
  using assms
  by (simp add: ChanceOutcomes_def source_num_dice Let_def kDefaultNumDice_def
      double_div_values)

lemma ChanceOutcomes_two:
  assumes "IsChanceNode s" "num_selected_dice (dice s) = 2"
  shows "ChanceOutcomes s = Inr
    [(2, Double 8006399337547548 (- 58)), (3, Double 8006399337547548 (- 57)),
     (4, Double 6004799503160661 (- 56)), (5, Double 8006399337547548 (- 56)),
     (6, Double 5003999585967218 (- 55)), (7, Double 6004799503160661 (- 55)),
     (8, Double 5003999585967218 (- 55)), (9, Double 8006399337547548 (- 56)),
     (10, Double 6004799503160661 (- 56)), (11, Double 8006399337547548 (- 57)),
     (12, Double 8006399337547548 (- 58))]"
  using assms
  by (simp add: ChanceOutcomes_def source_num_dice Let_def kDefaultNumDice_def
      double_div_values)

lemma ChanceOutcomes_three:
  assumes "IsChanceNode s" "num_selected_dice (dice s) = 3"
  shows "ChanceOutcomes s = Inr
    [(3, Double 5337599558365032 (- 60)), (4, Double 8006399337547548 (- 59)),
     (5, Double 8006399337547548 (- 58)), (6, Double 6671999447956290 (- 57)),
     (7, Double 5003999585967218 (- 56)), (8, Double 7005599420354105 (- 56)),
     (9, Double 8339999309945363 (- 56)), (10, Double 4503599627370496 (- 55)),
     (11, Double 4503599627370496 (- 55)), (12, Double 8339999309945363 (- 56)),
     (13, Double 7005599420354105 (- 56)), (14, Double 5003999585967218 (- 56)),
     (15, Double 6671999447956290 (- 57)), (16, Double 8006399337547548 (- 58)),
     (17, Double 8006399337547548 (- 59)), (18, Double 5337599558365032 (- 60))]"
  using assms
  by (simp add: ChanceOutcomes_def source_num_dice Let_def kDefaultNumDice_def
      double_div_values)

lemma ChanceOutcomes_distribution:
  assumes "IsChanceNode s" "1 \<le> num_selected_dice (dice s)"
  shows "\<exists>outs. ChanceOutcomes s = Inr outs \<and>
    map fst outs = [int (num_selected_dice (dice s)) .. 6 * int (num_selected_dice (dice s))] \<and>
    list_all2 (\<lambda>(k, d) (k', x). k = k' \<and> nearest_double d x) outs
      (dice_sum_pmf (num_selected_dice (dice s))) \<and>
    (\<forall>(k, d)\<in>set outs. 0 < double_val d) \<and>
    \<bar>sum_list (map (\<lambda>(k, d). double_val d) outs) - 1\<bar> \<le> 1 / 2 ^ 54"
  using assms(2)
proof (cases rule: num_selected_dice_cases)
  case 1
  show ?thesis
    unfolding 1 ChanceOutcomes_one [OF assms(1) 1]
    by (simp add: pmf1 [simplified] nearest_double_def double_val_def upto_rec1)
next
  case 2
  show ?thesis
    unfolding 2 ChanceOutcomes_two [OF assms(1) 2] pmf2
    by (simp add: nearest_double_def double_val_def upto_rec1)
next
  case 3
  show ?thesis
    unfolding 3 ChanceOutcomes_three [OF assms(1) 3] pmf3
    by (simp add: nearest_double_def double_val_def upto_rec1)
qed

lemma ChanceOutcomes_num_dice:
  assumes "ChanceOutcomes s = Inr outcomes"
  shows "IsChanceNode s \<and> 1 \<le> num_selected_dice (dice s)"
  using assms
  by (simp add: ChanceOutcomes_def source_num_dice Let_def split: if_splits)

lemma pmf_sum:
  assumes "m = 1 \<or> m = 2 \<or> m = 3"
  shows "sum_list (map snd (dice_sum_pmf m)) = 1"
  using assms by (auto simp: pmf1 [simplified] pmf2 pmf3)

lemma dice_selected:
  assumes "1 \<le> d" "d \<le> 7"
  shows "1 \<le> num_selected_dice d"
proof -
  from assms have "d = 1 \<or> d = 2 \<or> d = 3 \<or> d = 4 \<or> d = 5 \<or> d = 6 \<or> d = 7" by linarith
  then show ?thesis by (auto simp: num_selected_dice_def game_defs)
qed

section \<open>The turn counters on reachable states\<close>

lemma LegalActions_real:
  "0 \<le> p \<Longrightarrow> LegalActions K s p = LegalActionsPlayer K s p"
  by (simp add: LegalActions_def player_defs)

lemma legal_component_real:
  assumes "0 \<le> p" "legal_component K s p a"
  shows "p < num_players s \<and> \<not> IsTerminal s"
  using assms
  by (auto simp: legal_component_def LegalActions_real LegalActionsPlayer_def
      split: if_splits sum.splits)

lemma legal_select:
  assumes "0 \<le> p" "phase s = kSelectDice" "legal_component K s p a"
  shows "1 \<le> a \<and> a \<le> 7"
  using assms
  by (auto simp: legal_component_def LegalActions_real LegalActionsPlayer_def game_defs
      split: if_splits sum.splits)

lemma legal_submit:
  assumes "0 \<le> p" "phase s = kSubmitPoints" "legal_component K s p a"
  shows "a = (if p = current_player s then kActionMiss K else kActionSkip K) \<or>
         (0 \<le> a \<and> a \<le> 26 \<and> field_legal s (drop (nat (p * 28)) (scores s)) a)"
  using assms
  by (auto simp: legal_component_def LegalActions_real LegalActionsPlayer_def game_defs
      split: if_splits sum.splits)

lemma legal_chance:
  assumes "legal_component K s kChancePlayerId a"
  shows "IsChanceNode s \<and> 1 \<le> a \<and> a \<le> 18"
proof -
  from assms obtain outcomes where o: "ChanceOutcomes s = Inr outcomes"
    and a: "a \<in> fst ` set outcomes"
    by (auto simp: legal_component_def LegalActions_def LegalChanceOutcomes_def player_defs
        split: sum.splits)
  from ChanceOutcomes_num_dice [OF o]
  have c: "IsChanceNode s" and m: "1 \<le> num_selected_dice (dice s)" by simp_all
  from ChanceOutcomes_distribution [OF c m] o
  have "map fst outcomes
      = [int (num_selected_dice (dice s)) .. 6 * int (num_selected_dice (dice s))]"
    by auto
  then have "set (map fst outcomes)
      = {int (num_selected_dice (dice s)) .. 6 * int (num_selected_dice (dice s))}"
    by simp
  then have "int (num_selected_dice (dice s)) \<le> a" "a \<le> 6 * int (num_selected_dice (dice s))"
    using a by auto
  then show ?thesis using c m num_selected_dice_le [of "dice s"] by linarith
qed

lemma legal_terminal: "\<not> legal_component K s kTerminalPlayerId a"
  by (simp add: legal_component_def LegalActions_def player_defs)

lemma turn_inv_DoApplyAction:
  assumes inv: "turn_inv n s" and ns: "CurrentPlayer s \<noteq> kSimultaneousPlayerId"
    and legal: "legal_component K s (CurrentPlayer s) a"
    and app: "DoApplyAction K s a = Inr s'"
  shows "turn_inv n s' \<and> scores s' = scores s"
proof -
  have nt: "\<not> IsTerminal s"
    using legal legal_terminal by (auto simp: CurrentPlayer_def split: if_splits)
  then have cp: "CurrentPlayer s = player s" by (simp add: CurrentPlayer_def)
  have nsim: "\<not> IsSimultaneousNode s" using ns by (simp add: IsSimultaneousNode_def)
  show ?thesis
  proof (cases "IsChanceNode s")
    case True
    then have "player s = kChancePlayerId" using cp by (simp add: IsChanceNode_def)
    with legal cp have "1 \<le> a \<and> a \<le> 18" using legal_chance by simp
    moreover have "s' = s\<lparr>dice_outcome := a, player := current_player s\<rparr>"
      and "phase s = kRollDice"
      using app True nsim by (auto simp: DoApplyAction_def split: if_splits)
    ultimately show ?thesis using inv by (auto simp: turn_inv_def player_defs)
  next
    case False
    then have real: "0 \<le> player s" "player s < num_players s"
      using app nsim by (auto simp: DoApplyAction_def split: if_splits)
    show ?thesis
    proof (cases "phase s")
      case kSelectDice
      then have "1 \<le> a \<and> a \<le> 7" using legal_select real(1) legal cp by simp
      moreover have "s' = s\<lparr>dice := a, player := kChancePlayerId, phase := kRollDice,
          num_dice_rolls := 1\<rparr>"
        using app False nsim real kSelectDice by (simp add: DoApplyAction_def)
      ultimately show ?thesis using inv by (auto simp: turn_inv_def)
    next
      case kRollDice
      then have "s' = s\<lparr>num_dice_rolls := num_dice_rolls s + 1, player := kChancePlayerId\<rparr>
          \<or> s' = s\<lparr>phase := kSubmitPoints, player := kSimultaneousPlayerId\<rparr>"
        using app False nsim real by (auto simp: DoApplyAction_def split: if_splits)
      then show ?thesis using inv kRollDice by (auto simp: turn_inv_def player_defs)
    next
      case kSubmitPoints
      then show ?thesis using app False nsim real by (simp add: DoApplyAction_def)
    qed
  qed
qed

lemma cpp_rem_nonneg: "0 \<le> a \<Longrightarrow> 0 < b \<Longrightarrow> cpp_rem a b = a mod b"
  by (simp add: cpp_rem_def sgn_if)

lemma modify_score_length: "modify_score sc idx f = Inr sc' \<Longrightarrow> length sc' = length sc"
  by (auto simp: modify_score_def split: if_splits)

lemma submit_loop_length:
  "submit_loop K cur outcome p as sc = Inr sc' \<Longrightarrow> length sc' = length sc"
proof (induction as arbitrary: p sc)
  case Nil
  then show ?case by simp
next
  case (Cons a as)
  then show ?case
    by (auto split: if_splits sum.splits dest!: modify_score_length)
qed

lemma DoApplyActions_Inr:
  assumes "DoApplyActions K s actions = Inr s'"
  obtains sc' where "int (length actions) = num_players s" "phase s = kSubmitPoints"
    "submit_loop K (current_player s) (dice_outcome s) 0 actions (scores s) = Inr sc'"
    "num_players s \<noteq> 0"
    "s' = s\<lparr>scores := sc', phase := kSelectDice,
             current_player := cpp_rem (current_player s + 1) (num_players s),
             player := cpp_rem (current_player s + 1) (num_players s)\<rparr>"
  using assms
  by (auto simp: DoApplyActions_def Let_def split: if_splits sum.splits)

lemma turn_inv_DoApplyActions:
  assumes inv: "turn_inv n s" and app: "DoApplyActions K s actions = Inr s'"
  shows "turn_inv n s'"
proof -
  from app obtain sc' where
    loop: "submit_loop K (current_player s) (dice_outcome s) 0 actions (scores s) = Inr sc'"
    and s': "s' = s\<lparr>scores := sc', phase := kSelectDice,
             current_player := cpp_rem (current_player s + 1) (num_players s),
             player := cpp_rem (current_player s + 1) (num_players s)\<rparr>"
    by (rule DoApplyActions_Inr)
  have n: "num_players s = n" "1 \<le> n" "0 \<le> current_player s" "current_player s < n"
    using inv by (simp_all add: turn_inv_def)
  define nx where "nx = cpp_rem (current_player s + 1) (num_players s)"
  have "nx = (current_player s + 1) mod n"
    using n by (simp add: nx_def cpp_rem_nonneg)
  then have "0 \<le> nx" "nx < n" using n by simp_all
  then show ?thesis
    using inv submit_loop_length [OF loop] unfolding s' nx_def [symmetric]
    by (simp add: turn_inv_def player_defs)
qed

lemma turn_inv_initial: "1 \<le> n \<Longrightarrow> n \<le> 10 \<Longrightarrow> turn_inv n (NewInitialState n)"
  by (simp add: turn_inv_def NewInitialState_def game_defs player_defs)

lemma reachable_turn_inv: "reachable K n s \<Longrightarrow> turn_inv n s"
proof (induction rule: reachable.induct)
  case initial
  then show ?case by (rule turn_inv_initial)
next
  case (apply_action s a s')
  then show ?case using turn_inv_DoApplyAction by blast
next
  case (apply_actions s actions s')
  then show ?case using turn_inv_DoApplyActions by blast
qed

section \<open>The example states are reachable\<close>

lemma cell_replicate:
  assumes "0 \<le> p" "p < n" "0 \<le> k" "k < 28"
  shows "cell (replicate (nat (n * 28)) v) p k = v"
proof -
  have "p * 28 + k < n * 28" using assms by linarith
  moreover have "0 \<le> p * 28 + k" using assms by simp
  ultimately have "nat (p * 28 + k) < nat (n * 28)" by linarith
  then show ?thesis unfolding cell_def by (rule nth_replicate)
qed

lemma not_terminal_zero:
  assumes "scores s = replicate (nat (num_players s * 28)) 0"
  shows "\<not> IsTerminal s"
  unfolding IsTerminal_iff using assms by (auto simp: cell_replicate)

lemma example_scores:
  "scores (NewInitialState n) = replicate (nat (n * 28)) 0"
  "scores (selected n) = replicate (nat (n * 28)) 0"
  "scores (rolled n) = replicate (nat (n * 28)) 0"
  "scores (submitting n) = replicate (nat (n * 28)) 0"
  by (simp_all add: NewInitialState_def selected_def rolled_def submitting_def game_defs)

lemma example_num_players:
  "num_players (NewInitialState n) = n" "num_players (selected n) = n"
  "num_players (rolled n) = n" "num_players (submitting n) = n"
  by (simp_all add: NewInitialState_def selected_def rolled_def submitting_def)

lemma example_not_terminal:
  "\<not> IsTerminal (NewInitialState n)" "\<not> IsTerminal (selected n)"
  "\<not> IsTerminal (rolled n)" "\<not> IsTerminal (submitting n)"
  by (rule not_terminal_zero, simp add: example_scores example_num_players)+

lemma example_players:
  "CurrentPlayer (NewInitialState n) = 0" "CurrentPlayer (selected n) = kChancePlayerId"
  "CurrentPlayer (rolled n) = 0" "CurrentPlayer (submitting n) = kSimultaneousPlayerId"
  by (simp_all add: CurrentPlayer_def example_not_terminal)
     (simp_all add: NewInitialState_def selected_def rolled_def submitting_def)

lemma selected_chance: "IsChanceNode (selected n)"
  by (simp add: IsChanceNode_def example_players)

lemma selected_dice: "num_selected_dice (dice (selected n)) = 1"
  by (simp add: num_selected_dice_def selected_def game_defs)

lemma selected_outcomes:
  "ChanceOutcomes (selected n) = Inr
    [(1, Double 6004799503160661 (- 55)), (2, Double 6004799503160661 (- 55)),
     (3, Double 6004799503160661 (- 55)), (4, Double 6004799503160661 (- 55)),
     (5, Double 6004799503160661 (- 55)), (6, Double 6004799503160661 (- 55))]"
  by (rule ChanceOutcomes_one [OF selected_chance selected_dice])

lemma reachable_selected:
  assumes "1 \<le> n" "n \<le> 10"
  shows "reachable K n (selected n)"
proof (rule reachable.apply_action [where s = "NewInitialState n" and a = 1])
  show "reachable K n (NewInitialState n)" using assms by (rule reachable.initial)
  show "CurrentPlayer (NewInitialState n) \<noteq> kSimultaneousPlayerId"
    by (simp add: example_players player_defs)
  show "legal_component K (NewInitialState n) (CurrentPlayer (NewInitialState n)) 1"
    using assms
    by (simp add: example_players legal_component_def LegalActions_real LegalActionsPlayer_def
        example_not_terminal example_num_players)
       (simp add: NewInitialState_def game_defs)
  show "DoApplyAction K (NewInitialState n) 1 = Inr (selected n)"
    using assms
    by (simp add: DoApplyAction_def IsSimultaneousNode_def IsChanceNode_def example_players
        player_defs example_num_players)
       (simp add: NewInitialState_def selected_def player_defs)
qed

lemma reachable_rolled:
  assumes "1 \<le> n" "n \<le> 10"
  shows "reachable K n (rolled n)"
proof (rule reachable.apply_action [where s = "selected n" and a = 3])
  show "reachable K n (selected n)" using assms by (rule reachable_selected)
  show "CurrentPlayer (selected n) \<noteq> kSimultaneousPlayerId"
    by (simp add: example_players player_defs)
  show "legal_component K (selected n) (CurrentPlayer (selected n)) 3"
    by (simp add: example_players legal_component_def LegalActions_def LegalChanceOutcomes_def
        selected_outcomes player_defs)
  show "DoApplyAction K (selected n) 3 = Inr (rolled n)"
    by (simp add: DoApplyAction_def IsSimultaneousNode_def selected_chance example_players
        player_defs)
       (simp add: selected_def rolled_def NewInitialState_def)
qed

lemma reachable_submitting:
  assumes "1 \<le> n" "n \<le> 10"
  shows "reachable K n (submitting n)"
proof (rule reachable.apply_action [where s = "rolled n" and a = 1])
  show "reachable K n (rolled n)" using assms by (rule reachable_rolled)
  show "CurrentPlayer (rolled n) \<noteq> kSimultaneousPlayerId"
    by (simp add: example_players player_defs)
  show "legal_component K (rolled n) (CurrentPlayer (rolled n)) 1"
    using assms
    by (simp add: example_players legal_component_def LegalActions_real LegalActionsPlayer_def
        example_not_terminal example_num_players)
       (simp add: rolled_def selected_def NewInitialState_def)
  show "DoApplyAction K (rolled n) 1 = Inr (submitting n)"
    using assms
    by (simp add: DoApplyAction_def IsSimultaneousNode_def IsChanceNode_def example_players
        player_defs example_num_players)
       (simp add: rolled_def submitting_def selected_def NewInitialState_def player_defs)
qed

section \<open>Chance outcomes (claim C3)\<close>

lemma reachable_all_selected: "reachable example_consts 1 all_selected"
proof (rule reachable.apply_action [where s = "NewInitialState 1" and a = 7])
  show "reachable example_consts 1 (NewInitialState 1)" by (simp add: reachable.initial)
  show "CurrentPlayer (NewInitialState 1) \<noteq> kSimultaneousPlayerId"
    by (simp add: example_players player_defs)
  show "legal_component example_consts (NewInitialState 1) (CurrentPlayer (NewInitialState 1)) 7"
    by code_simp
  show "DoApplyAction example_consts (NewInitialState 1) 7 = Inr all_selected" by code_simp
qed

text \<open>
  Claim C3 says that the probabilities that \<open>ChanceOutcomes\<close> returns are exactly the
  convolution counts over \<open>6 ^ n\<close> and that they sum to 1. They are doubles. With one die
  each of the six probabilities is the double \<open>6004799503160661 / 2 ^ 55\<close>, the one
  nearest to \<open>1/6\<close> and different from it, and the six add up to \<open>1 - 1 / 2 ^ 54\<close>.
\<close>

theorem exact_probabilities_counterexample:
  "reachable example_consts 2 (selected 2) \<and> IsChanceNode (selected 2) \<and>
   ChanceOutcomes (selected 2) = Inr
     [(1, Double 6004799503160661 (- 55)), (2, Double 6004799503160661 (- 55)),
      (3, Double 6004799503160661 (- 55)), (4, Double 6004799503160661 (- 55)),
      (5, Double 6004799503160661 (- 55)), (6, Double 6004799503160661 (- 55))] \<and>
   double_val (Double 6004799503160661 (- 55)) \<noteq> 1 / 6 \<and>
   double_val (Double 6004799503160661 (- 55)) + double_val (Double 6004799503160661 (- 55))
     + double_val (Double 6004799503160661 (- 55)) + double_val (Double 6004799503160661 (- 55))
     + double_val (Double 6004799503160661 (- 55)) + double_val (Double 6004799503160661 (- 55))
     = 1 - 1 / 2 ^ 54"
proof -
  have "reachable example_consts 2 (selected 2)" by (rule reachable_selected) simp_all
  moreover have "double_val (Double 6004799503160661 (- 55)) \<noteq> 1 / 6"
    by (simp add: double_val_def)
  moreover have
    "double_val (Double 6004799503160661 (- 55)) + double_val (Double 6004799503160661 (- 55))
     + double_val (Double 6004799503160661 (- 55)) + double_val (Double 6004799503160661 (- 55))
     + double_val (Double 6004799503160661 (- 55)) + double_val (Double 6004799503160661 (- 55))
     = 1 - 1 / 2 ^ 54"
    by (simp add: double_val_def)
  ultimately show ?thesis using selected_chance selected_outcomes by blast
qed

text \<open>
  Claim C3, amended. At every chance node of a reachable state, with \<open>m\<close> the number of
  selected dice, \<open>m\<close> lies in \<open>[1, 3]\<close> and \<open>ChanceOutcomes\<close> returns the outcomes
  \<open>m, ..., 6 m\<close> in ascending order, each with a positive probability that is the double
  nearest to its probability in the distribution of the sum of \<open>m\<close> fair dice (the number
  of rolls with that sum over \<open>6 ^ m\<close>; these exact probabilities sum to 1, and for three
  dice the counts are 1, 3, 6, 10, 15, 21, 25, 27, 27, 25, 21, 15, 10, 6, 3, 1). The
  returned doubles sum to 1 within floating tolerance: their exact sum differs from 1 by at
  most \<open>1 / 2 ^ 54\<close>.
\<close>

theorem chance_outcomes_rounded:
  assumes "reachable K n s" "IsChanceNode s"
  shows "1 \<le> num_selected_dice (dice s) \<and> num_selected_dice (dice s) \<le> 3 \<and>
    (case ChanceOutcomes s of
       Inl e \<Rightarrow> False
     | Inr outs \<Rightarrow>
         map fst outs
           = [int (num_selected_dice (dice s)) .. 6 * int (num_selected_dice (dice s))] \<and>
         list_all2 (\<lambda>(k, d) (k', x). k = k' \<and> nearest_double d x) outs
           (dice_sum_pmf (num_selected_dice (dice s))) \<and>
         (\<forall>(k, d)\<in>set outs. 0 < double_val d) \<and>
         \<bar>sum_list (map (\<lambda>(k, d). double_val d) outs) - 1\<bar> \<le> 1 / 2 ^ 54) \<and>
    sum_list (map snd (dice_sum_pmf (num_selected_dice (dice s)))) = 1 \<and>
    map (num_ways 3) [3, 4, 5, 6, 7, 8, 9, 10, 11, 12, 13, 14, 15, 16, 17, 18]
      = [1, 3, 6, 10, 15, 21, 25, 27, 27, 25, 21, 15, 10, 6, 3, 1]"
proof -
  from assms(2) have "player s = kChancePlayerId"
    by (auto simp: IsChanceNode_def CurrentPlayer_def player_defs split: if_splits)
  with reachable_turn_inv [OF assms(1)] have "1 \<le> dice s" "dice s \<le> 7"
    by (auto simp: turn_inv_def)
  then have m: "1 \<le> num_selected_dice (dice s)" by (rule dice_selected)
  then have m3: "num_selected_dice (dice s) = 1 \<or> num_selected_dice (dice s) = 2
      \<or> num_selected_dice (dice s) = 3"
    by (cases rule: num_selected_dice_cases) simp_all
  from ChanceOutcomes_distribution [OF assms(2) m] obtain outs where
    o: "ChanceOutcomes s = Inr outs"
    and p: "map fst outs
           = [int (num_selected_dice (dice s)) .. 6 * int (num_selected_dice (dice s))] \<and>
         list_all2 (\<lambda>(k, d) (k', x). k = k' \<and> nearest_double d x) outs
           (dice_sum_pmf (num_selected_dice (dice s))) \<and>
         (\<forall>(k, d)\<in>set outs. 0 < double_val d) \<and>
         \<bar>sum_list (map (\<lambda>(k, d). double_val d) outs) - 1\<bar> \<le> 1 / 2 ^ 54"
    by blast
  show ?thesis
    unfolding o using m num_selected_dice_le [of "dice s"] p pmf_sum [OF m3] ways3
    by simp
qed

theorem chance_outcomes_rounded_witness:
  "reachable example_consts 1 all_selected \<and> IsChanceNode all_selected \<and>
   num_selected_dice (dice all_selected) = 3 \<and>
   (case ChanceOutcomes all_selected of
      Inl e \<Rightarrow> False
    | Inr outs \<Rightarrow>
        map fst outs = [3, 4, 5, 6, 7, 8, 9, 10, 11, 12, 13, 14, 15, 16, 17, 18] \<and>
        list_all2 (\<lambda>(k, d) (k', x). k = k' \<and> nearest_double d x) outs (dice_sum_pmf 3) \<and>
        \<bar>sum_list (map (\<lambda>(k, d). double_val d) outs) - 1\<bar> \<le> 1 / 2 ^ 54)"
proof -
  have c: "IsChanceNode all_selected" by code_simp
  have d: "num_selected_dice (dice all_selected) = 3" by code_simp
  from chance_outcomes_rounded [OF reachable_all_selected c]
  show ?thesis
    using reachable_all_selected c unfolding d
    by (simp add: upto_rec1 split: sum.splits)
qed

section \<open>Observation tensor (claim C10)\<close>

text \<open>
  Claim C10. On a reachable state and for a real player index, \<open>ObservationTensor\<close>
  passes its final length check and writes \<open>3 + kDefaultNumDiceRolls + 3 + 18 + N + N * 28\<close>
  values, which is the declared \<open>ObservationTensorShape\<close>. The number of dice rolls is a
  count, so the constant is taken to be non-negative.
\<close>

theorem observation_tensor_length:
  assumes "reachable K n s" "0 \<le> kDefaultNumDiceRolls K" "0 \<le> p" "p < n"
  shows "ObservationTensor K s p = Inr (observation_values K s) \<and>
    int (length (observation_values K s)) = 3 + kDefaultNumDiceRolls K + 3 + 18 + n + n * 28 \<and>
    ObservationTensorShape K n = [3 + kDefaultNumDiceRolls K + 3 + 18 + n + n * 28]"
proof -
  from reachable_turn_inv [OF assms(1)]
  have n: "num_players s = n" "1 \<le> n" "int (length (scores s)) = n * 28"
    by (simp_all add: turn_inv_def)
  have len: "int (length (observation_values K s))
      = 3 + kDefaultNumDiceRolls K + 3 + 18 + n + n * 28"
    using n assms(2) by (simp add: observation_values_def)
  have shape: "ObservationTensorShape K n = [3 + kDefaultNumDiceRolls K + 3 + 18 + n + n * 28]"
    by (simp add: ObservationTensorShape_def game_defs)
  show ?thesis
    using len shape assms(3,4) n(1)
    by (simp add: ObservationTensor_def ObservationTensorSize_def Let_def)
qed

theorem observation_tensor_length_witness:
  "reachable example_consts 2 (submitting 2) \<and> 0 \<le> kDefaultNumDiceRolls example_consts \<and>
   ObservationTensor example_consts (submitting 2) 1
     = Inr (observation_values example_consts (submitting 2)) \<and>
   length (observation_values example_consts (submitting 2)) = 84 \<and>
   ObservationTensorShape example_consts 2 = [84]"
proof -
  have r: "reachable example_consts 2 (submitting 2)" by (rule reachable_submitting) simp_all
  have k: "0 \<le> kDefaultNumDiceRolls example_consts" by (simp add: example_consts_def)
  from observation_tensor_length [OF r k, of 1] show ?thesis
    using r by (simp add: example_consts_def)
qed

section \<open>The loop of \<open>DoApplyActions\<close>, cell by cell\<close>

lemma idx_eq:
  fixes p q a k :: int
  assumes "0 \<le> p" "0 \<le> q" "0 \<le> a" "a < 28" "0 \<le> k" "k < 28"
  shows "nat (p * 28 + a) = nat (q * 28 + k) \<longleftrightarrow> p = q \<and> a = k"
proof -
  have "nat (p * 28 + a) = nat (q * 28 + k) \<longleftrightarrow> p * 28 + a = q * 28 + k"
    using assms by (simp add: eq_nat_nat_iff)
  also have "\<dots> \<longleftrightarrow> p = q \<and> a = k"
  proof
    assume e: "p * 28 + a = q * 28 + k"
    have "(p * 28 + a) div 28 = p" "(q * 28 + k) div 28 = q" using assms by simp_all
    then have "p = q" using e by simp
    then show "p = q \<and> a = k" using e by simp
  qed simp
  finally show ?thesis .
qed

lemma cell_update:
  assumes "0 \<le> p" "0 \<le> q" "0 \<le> a" "a < 28" "0 \<le> k" "k < 28" "p * 28 + a < int (length sc)"
  shows "cell (sc[nat (p * 28 + a) := v]) q k = (if q = p \<and> k = a then v else cell sc q k)"
proof -
  have e: "nat (p * 28 + a) = nat (q * 28 + k) \<longleftrightarrow> p = q \<and> a = k"
    using assms by (intro idx_eq)
  have l: "nat (p * 28 + a) < length sc" using assms by linarith
  show ?thesis
  proof (cases "p = q \<and> a = k")
    case True
    then show ?thesis using l by (simp add: cell_def)
  next
    case False
    then have "nat (p * 28 + a) \<noteq> nat (q * 28 + k)" using e by simp
    then have "cell (sc[nat (p * 28 + a) := v]) q k = cell sc q k"
      unfolding cell_def by (rule nth_list_update_neq)
    then show ?thesis using False by auto
  qed
qed

lemma submit_loop_Cons:
  assumes "submit_loop K cur outcome p (a # as) sc = Inr sc'"
  shows "submit_loop K cur outcome (p + 1) as
           (if a = kActionSkip K then sc
            else sc[nat (p * 28 + a) :=
                  (if a = kActionMiss K then sc ! nat (p * 28 + a) + kDefaultMissPoints
                   else outcome)]) = Inr sc' \<and>
         (a \<noteq> kActionSkip K \<longrightarrow> 0 \<le> p * 28 + a \<and> p * 28 + a < int (length sc)) \<and>
         component_checked K cur p a"
proof (cases "a = kActionSkip K")
  case True
  then show ?thesis using assms by (simp add: component_checked_def split: if_splits)
next
  case False
  show ?thesis
  proof (cases "a = kActionMiss K")
    case True
    then show ?thesis using assms False
      by (simp add: game_defs modify_score_def component_checked_def split: if_splits sum.splits)
  next
    case False
    then show ?thesis using assms \<open>a \<noteq> kActionSkip K\<close>
      by (simp add: game_defs modify_score_def component_checked_def split: if_splits sum.splits)
  qed
qed

lemma component_effect_eq:
  "component_effect K outcome a k v =
     (if a \<noteq> kActionSkip K \<and> k = a
      then (if a = kActionMiss K then v + kDefaultMissPoints else outcome) else v)"
  by (simp add: component_effect_def)

lemma submit_loop_nth:
  assumes "submit_loop K cur outcome p as sc = Inr sc'" "0 \<le> p"
    "\<forall>a\<in>set as. a = kActionSkip K \<or> (0 \<le> a \<and> a < 28)"
  shows "\<forall>q k. 0 \<le> q \<longrightarrow> 0 \<le> k \<longrightarrow> k < 28 \<longrightarrow>
       cell sc' q k =
         (if p \<le> q \<and> q < p + int (length as)
          then component_effect K outcome (as ! nat (q - p)) k (cell sc q k)
          else cell sc q k)"
  using assms
proof (induction as arbitrary: p sc)
  case Nil
  then show ?case by simp
next
  case (Cons a as)
  have p1: "0 \<le> p + 1" using Cons.prems(2) by simp
  have rest: "\<forall>a\<in>set as. a = kActionSkip K \<or> (0 \<le> a \<and> a < 28)"
    using Cons.prems(3) by simp
  have nth_tl: "(a # as) ! nat (q - p) = as ! nat (q - (p + 1))" if "p + 1 \<le> q" for q
  proof -
    from that have "nat (q - p) = Suc (nat (q - (p + 1)))" by linarith
    then show ?thesis by simp
  qed
  define w where "w = (if a = kActionMiss K then sc ! nat (p * 28 + a) + kDefaultMissPoints
                   else outcome)"
  define sc1 where "sc1 = (if a = kActionSkip K then sc else sc[nat (p * 28 + a) := w])"
  from submit_loop_Cons [OF Cons.prems(1)]
  have run: "submit_loop K cur outcome (p + 1) as sc1 = Inr sc'"
    and inr: "a \<noteq> kActionSkip K \<Longrightarrow> p * 28 + a < int (length sc)"
    unfolding sc1_def w_def by simp_all
  have c1: "cell sc1 q k = (if q = p then component_effect K outcome a k (cell sc q k)
                            else cell sc q k)"
    if q: "0 \<le> q" "0 \<le> k" "k < 28" for q k
  proof (cases "a = kActionSkip K")
    case True
    then show ?thesis by (simp add: sc1_def component_effect_eq)
  next
    case False
    then have range: "0 \<le> a" "a < 28" using Cons.prems(3) by auto
    have "cell sc1 q k = (if q = p \<and> k = a then w else cell sc q k)"
      unfolding sc1_def using False
      by (simp add: cell_update [OF Cons.prems(2) q(1) range q(2,3) inr [OF False]])
    then show ?thesis using False
      by (auto simp: component_effect_eq w_def cell_def)
  qed
  from Cons.IH [OF run p1 rest]
  have ih: "\<And>q k. 0 \<le> q \<Longrightarrow> 0 \<le> k \<Longrightarrow> k < 28 \<Longrightarrow>
       cell sc' q k =
         (if p + 1 \<le> q \<and> q < p + 1 + int (length as)
          then component_effect K outcome (as ! nat (q - (p + 1))) k (cell sc1 q k)
          else cell sc1 q k)"
    by simp_all
  have "cell sc' q k =
         (if p \<le> q \<and> q < p + int (length (a # as))
          then component_effect K outcome ((a # as) ! nat (q - p)) k (cell sc q k)
          else cell sc q k)" if q: "0 \<le> q" "0 \<le> k" "k < 28" for q k
  proof -
    consider "q < p" | "q = p" | "p + 1 \<le> q" by linarith
    then show ?thesis
    proof cases
      case 1
      then show ?thesis using ih [OF q] c1 [OF q] by simp
    next
      case 2
      then show ?thesis using ih [OF q] c1 [OF q] by simp
    next
      case 3
      then have "q \<noteq> p" by simp
      then show ?thesis using ih [OF q] c1 [OF q] 3 by (simp add: nth_tl [OF 3])
    qed
  qed
  then show ?case by simp
qed

lemma submit_loop_checked:
  assumes "submit_loop K cur outcome p as sc = Inr sc'"
  shows "\<forall>j<length as. component_checked K cur (p + int j) (as ! j)"
  using assms
proof (induction as arbitrary: p sc)
  case Nil
  then show ?case by simp
next
  case (Cons a as)
  from submit_loop_Cons [OF Cons.prems]
  obtain sc1 where run: "submit_loop K cur outcome (p + 1) as sc1 = Inr sc'"
    and chk: "component_checked K cur p a"
    by blast
  have "p + 1 + int j = p + int (Suc j)" for j by simp
  with Cons.IH [OF run]
  have "\<forall>j<length as. component_checked K cur (p + int (Suc j)) (as ! j)"
    by (simp only:)
  with chk show ?case by (simp add: All_less_Suc2)
qed

lemma submit_loop_unchecked:
  assumes "\<not> component_checked K cur p a"
  shows "submit_loop K cur outcome p (a # as) sc = Inl SpielFatalError"
  using assms by (auto simp: component_checked_def)

lemma submit_loop_step:
  assumes "component_checked K cur p a"
    "a \<noteq> kActionSkip K \<longrightarrow> 0 \<le> p * 28 + a \<and> p * 28 + a < int (length sc)"
  shows "\<exists>sc1. length sc1 = length sc \<and>
     submit_loop K cur outcome p (a # as) sc = submit_loop K cur outcome (p + 1) as sc1"
proof (cases "a = kActionSkip K")
  case True
  then show ?thesis using assms by (intro exI [of _ sc]) (simp add: component_checked_def)
next
  case False
  then have "\<exists>sc1. length sc1 = length sc \<and> modify_score sc (p * 28 + a) f = Inr sc1" for f
    using assms(2) by (simp add: modify_score_def)
  then obtain sc1 sc2 where
    "length sc1 = length sc" "modify_score sc (p * 28 + a) (\<lambda>v. v + kDefaultMissPoints) = Inr sc1"
    "length sc2 = length sc" "modify_score sc (p * 28 + a) (\<lambda>v. outcome) = Inr sc2"
    by blast
  then show ?thesis using assms(1) False
    by (cases "a = kActionMiss K") (auto simp: component_checked_def game_defs)
qed

lemma submit_loop_cases:
  assumes "0 \<le> p" "(p + int (length as)) * 28 \<le> int (length sc)"
    "\<forall>a\<in>set as. a = kActionSkip K \<or> (0 \<le> a \<and> a < 28)"
  shows "(\<exists>sc'. submit_loop K cur outcome p as sc = Inr sc') \<or>
     submit_loop K cur outcome p as sc = Inl SpielFatalError \<and>
       \<not> (\<forall>j<length as. component_checked K cur (p + int j) (as ! j))"
  using assms
proof (induction as arbitrary: p sc)
  case Nil
  then show ?case by simp
next
  case (Cons a as)
  show ?case
  proof (cases "component_checked K cur p a")
    case False
    then have "\<not> (\<forall>j<length (a # as). component_checked K cur (p + int j) ((a # as) ! j))"
      by (auto simp: All_less_Suc2)
    then show ?thesis using submit_loop_unchecked [OF False] by simp
  next
    case True
    have "a \<noteq> kActionSkip K \<longrightarrow> 0 \<le> p * 28 + a \<and> p * 28 + a < int (length sc)"
    proof
      assume "a \<noteq> kActionSkip K"
      then have "0 \<le> a" "a < 28" using Cons.prems(3) by auto
      moreover have "(p + 1) * 28 \<le> int (length sc)"
      proof -
        have "(p + 1) * 28 \<le> (p + int (length (a # as))) * 28" by simp
        then show ?thesis using Cons.prems(2) by linarith
      qed
      ultimately show "0 \<le> p * 28 + a \<and> p * 28 + a < int (length sc)"
        using Cons.prems(1) by (simp add: algebra_simps)
    qed
    from submit_loop_step [OF True this]
    obtain sc1 where len: "length sc1 = length sc"
      and eq: "submit_loop K cur outcome p (a # as) sc = submit_loop K cur outcome (p + 1) as sc1"
      by blast
    have l1: "(p + 1 + int (length as)) * 28 \<le> int (length sc1)"
      using Cons.prems(2) len by (simp add: algebra_simps)
    have p1: "0 \<le> p + 1" using Cons.prems(1) by simp
    have r1: "\<forall>a\<in>set as. a = kActionSkip K \<or> (0 \<le> a \<and> a < 28)"
      using Cons.prems(3) by simp
    have ih: "(\<exists>sc'. submit_loop K cur outcome (p + 1) as sc1 = Inr sc') \<or>
       submit_loop K cur outcome (p + 1) as sc1 = Inl SpielFatalError \<and>
       \<not> (\<forall>j<length as. component_checked K cur (p + 1 + int j) (as ! j))"
      by (rule Cons.IH [OF p1 l1 r1])
    have "p + 1 + int j = p + int (Suc j)" for j by simp
    then have "(\<forall>j<length as. component_checked K cur (p + 1 + int j) (as ! j)) \<longleftrightarrow>
       (\<forall>j<length as. component_checked K cur (p + int (Suc j)) (as ! j))"
      by (simp only:)
    also have "\<dots> \<longleftrightarrow>
       (\<forall>j<length (a # as). component_checked K cur (p + int j) ((a # as) ! j))"
      using True by (simp add: All_less_Suc2)
    finally show ?thesis using ih unfolding eq by simp
  qed
qed

section \<open>\<open>DoApplyActions\<close> on a state with well-formed counters\<close>

lemma DoApplyActions_cells:
  assumes inv: "turn_inv n s" and app: "DoApplyActions K s actions = Inr s'"
    and range: "\<forall>a\<in>set actions. a = kActionSkip K \<or> (0 \<le> a \<and> a < 28)"
  shows "\<forall>p k. 0 \<le> p \<and> p < n \<and> 0 \<le> k \<and> k < 28 \<longrightarrow>
    cell (scores s') p k
      = component_effect K (dice_outcome s) (actions ! nat p) k (cell (scores s) p k)"
    and "\<forall>p. 0 \<le> p \<and> p < n \<longrightarrow> component_checked K (current_player s) p (actions ! nat p)"
    and "phase s' = kSelectDice" and "current_player s' = (current_player s + 1) mod n"
    and "player s' = (current_player s + 1) mod n"
    and "dice s' = dice s" and "dice_outcome s' = dice_outcome s"
    and "num_dice_rolls s' = num_dice_rolls s" and "num_players s' = n"
proof -
  from app obtain sc' where
    len: "int (length actions) = num_players s"
    and loop: "submit_loop K (current_player s) (dice_outcome s) 0 actions (scores s) = Inr sc'"
    and s': "s' = s\<lparr>scores := sc', phase := kSelectDice,
             current_player := cpp_rem (current_player s + 1) (num_players s),
             player := cpp_rem (current_player s + 1) (num_players s)\<rparr>"
    by (rule DoApplyActions_Inr)
  have n: "num_players s = n" "1 \<le> n" "0 \<le> current_player s"
    using inv by (simp_all add: turn_inv_def)
  have r: "cpp_rem (current_player s + 1) n = (current_player s + 1) mod n"
    using n by (simp add: cpp_rem_nonneg)
  show "phase s' = kSelectDice" "current_player s' = (current_player s + 1) mod n"
    "player s' = (current_player s + 1) mod n" "dice s' = dice s"
    "dice_outcome s' = dice_outcome s" "num_dice_rolls s' = num_dice_rolls s"
    "num_players s' = n"
    using n by (simp_all add: s' r)
  from submit_loop_nth [OF loop _ range] len n(1)
  show "\<forall>p k. 0 \<le> p \<and> p < n \<and> 0 \<le> k \<and> k < 28 \<longrightarrow>
    cell (scores s') p k
      = component_effect K (dice_outcome s) (actions ! nat p) k (cell (scores s) p k)"
    by (simp add: s')
  show "\<forall>p. 0 \<le> p \<and> p < n \<longrightarrow> component_checked K (current_player s) p (actions ! nat p)"
  proof (intro allI impI)
    fix p assume p: "0 \<le> p \<and> p < n"
    then have "nat p < length actions" using len n(1) by linarith
    with submit_loop_checked [OF loop] p show
      "component_checked K (current_player s) p (actions ! nat p)" by auto
  qed
qed

section \<open>Legal fields, cell by cell\<close>

lemma upto_0_26:
  "[0 .. 26] = [0, 1, 2, 3, 4, 5, 6, 7, 8, 9, 10, 11, 12, 13, 14, 15, 16, 17, 18, 19, 20,
     21, 22, 23, 24, 25, 26 :: int]"
  by (simp add: upto_rec1)

lemma cell_index_cases:
  fixes c :: int
  assumes "0 \<le> c" "c \<le> 26"
  shows "c \<in> {0, 1, 2, 3, 4, 5, 6, 7, 8, 9, 10, 11, 12, 13, 14, 15, 16, 17, 18, 19, 20,
     21, 22, 23, 24, 25, 26}"
proof -
  from assms have "c \<in> set [0 .. 26]" by simp
  then show ?thesis unfolding upto_0_26 by simp
qed

lemma linked_cells_sym:
  assumes "0 \<le> c" "c \<le> 26" "d \<in> set (linked_cells c)"
  shows "c \<in> set (linked_cells d) \<and> 0 \<le> d \<and> d \<le> 26 \<and> d \<noteq> c"
  using cell_index_cases [OF assms(1,2)] assms(3)
  by (elim insertE emptyE; simp add: linked_cells_def; elim disjE; simp)

lemma is_valid_column_links:
  assumes "is_valid_column b outcome c"
  shows "\<forall>d\<in>set (linked_cells c). b ! nat d \<noteq> outcome"
  using assms by (auto simp: is_valid_column_def linked_cells_def split: if_splits)

lemma row_bounds:
  fixes i :: int
  shows "(i div 9) * 9 \<le> i" "i < (i div 9) * 9 + 9" "(i div 9) * 9 + i mod 9 = i"
    "0 \<le> i mod 9" "i mod 9 < 9"
  by (simp_all add: algebra_simps)

lemma list_all_take_drop:
  assumes "list_all P (take m (drop r b))" "r \<le> j" "j < r + m" "j < length b"
  shows "P (b ! j)"
proof -
  have "j - r < length b - r" "j - r < m" using assms by linarith+
  then have "j - r < length (take m (drop r b))" by simp
  moreover have "take m (drop r b) ! (j - r) = b ! j" using assms by simp
  ultimately show ?thesis using assms(1) by (metis list_all_length)
qed

lemma list_all_drop_take_drop:
  assumes "list_all P (drop m (take l (drop r b)))" "r + m \<le> j" "j < r + l" "j < length b"
  shows "P (b ! j)"
proof -
  have "drop m (take l (drop r b)) = take (l - m) (drop (r + m) b)"
    by (simp add: drop_take add.commute)
  then have "list_all P (take (l - m) (drop (r + m) b))" using assms(1) by simp
  then show ?thesis by (rule list_all_take_drop) (use assms in simp_all)
qed

lemma field_legal_cells:
  assumes len: "28 \<le> length b" and i: "0 \<le> i" "i \<le> 26" and legal: "field_legal s b i"
  shows "cell_legal (dice_outcome s) (\<lambda>k. b ! nat k) i"
proof -
  define r where "r = nat ((i div 9) * 9)"
  have r0: "0 \<le> (i div 9) * 9" using i by simp
  from legal have z: "b ! nat i = 0"
    and left: "list_all (\<lambda>a. a < dice_outcome s) (take (nat (i mod 9)) (drop r b))"
    and right: "list_all (\<lambda>a. a = 0 \<or> a > dice_outcome s)
        (drop (nat (i mod 9 + 1)) (take 9 (drop r b)))"
    and col: "is_valid_column b (dice_outcome s) i"
    unfolding field_legal_def Let_def r_def kDefaultNumFields_def
    by (simp_all split: if_splits)
  have "b ! nat j < dice_outcome s" if "(i div 9) * 9 \<le> j" "j < i" for j
  proof (rule list_all_take_drop [OF left])
    show "r \<le> nat j" using that r0 by (simp add: r_def)
    show "nat j < r + nat (i mod 9)"
      using that r0 row_bounds(3,4) [of i] unfolding r_def by linarith
    show "nat j < length b" using that i len by linarith
  qed
  moreover have "b ! nat j = 0 \<or> dice_outcome s < b ! nat j"
    if "i < j" "j < (i div 9) * 9 + 9" for j
  proof (rule list_all_drop_take_drop [OF right])
    show "r + nat (i mod 9 + 1) \<le> nat j"
      using that r0 row_bounds(3,4) [of i] unfolding r_def by linarith
    show "nat j < r + 9" using that r0 i unfolding r_def by linarith
    have "(i div 9) * 9 + 9 \<le> 27" using i by simp
    then show "nat j < length b" using that len by linarith
  qed
  ultimately show ?thesis
    using z is_valid_column_links [OF col] by (simp add: cell_legal_def)
qed

section \<open>The board invariant is kept by a legal placement and by a miss\<close>

lemma board_ok_cong:
  assumes "\<forall>k. 0 \<le> k \<and> k < 28 \<longrightarrow> g k = f k" "board_ok f"
  shows "board_ok g"
proof -
  have c: "cells_bounded g" using assms by (simp add: board_ok_def cells_bounded_def)
  have "g i < g j"
    if "0 \<le> i" "i < j" "j \<le> 26" "i div 9 = j div 9" "g i \<noteq> 0" "g j \<noteq> 0" for i j
  proof -
    have "g i = f i" "g j = f j" using assms(1) that by simp_all
    then show ?thesis using assms(2) that by (simp add: board_ok_def rows_increasing_def)
  qed
  then have r: "rows_increasing g" by (simp add: rows_increasing_def)
  have "g c \<noteq> g d" if "0 \<le> c" "c \<le> 26" "d \<in> set (linked_cells c)" "g c \<noteq> 0" for c d
  proof -
    from linked_cells_sym [OF that(1,2,3)] have "0 \<le> d" "d \<le> 26" by simp_all
    then have "g d = f d" "g c = f c" using assms(1) that by simp_all
    then show ?thesis using assms(2) that by (simp add: board_ok_def links_distinct_def)
  qed
  then show ?thesis using c r by (simp add: board_ok_def links_distinct_def)
qed

lemma same_row_bound:
  fixes i j :: int
  assumes "i div 9 = j div 9"
  shows "(i div 9) * 9 \<le> j" "j < (i div 9) * 9 + 9"
  using row_bounds(1,2) [of j] assms by simp_all

lemma board_ok_place:
  assumes ok: "board_ok f" and legal: "cell_legal outcome f i"
    and i: "0 \<le> i" "i \<le> 26" and o: "0 \<le> outcome" "outcome \<le> 18"
  shows "board_ok (f(i := outcome))"
proof -
  have c: "cells_bounded (f(i := outcome))"
    using ok i o by (auto simp: board_ok_def cells_bounded_def)
  have "(f(i := outcome)) a < (f(i := outcome)) b"
    if h: "0 \<le> a" "a < b" "b \<le> 26" "a div 9 = b div 9"
      "(f(i := outcome)) a \<noteq> 0" "(f(i := outcome)) b \<noteq> 0" for a b
  proof -
    consider "a = i" | "b = i" | "a \<noteq> i" "b \<noteq> i" by blast
    then show ?thesis
    proof cases
      case 1
      then have "i < b" "b < (i div 9) * 9 + 9" "f b \<noteq> 0"
        using h same_row_bound [of a b] by auto
      then have "outcome < f b" using legal by (auto simp: cell_legal_def)
      then show ?thesis using 1 h by simp
    next
      case 2
      then have "(i div 9) * 9 \<le> a" "a < i"
        using h same_row_bound [of b a] by auto
      then have "f a < outcome" using legal by (auto simp: cell_legal_def)
      then show ?thesis using 2 h by simp
    next
      case 3
      then show ?thesis using h ok by (simp add: board_ok_def rows_increasing_def)
    qed
  qed
  then have r: "rows_increasing (f(i := outcome))" by (simp add: rows_increasing_def)
  have "(f(i := outcome)) c \<noteq> (f(i := outcome)) d"
    if h: "0 \<le> c" "c \<le> 26" "d \<in> set (linked_cells c)" "(f(i := outcome)) c \<noteq> 0" for c d
  proof -
    from linked_cells_sym [OF h(1,2,3)]
    have sym: "c \<in> set (linked_cells d)" "d \<noteq> c" by simp_all
    consider "c = i" | "c \<noteq> i" "d = i" | "c \<noteq> i" "d \<noteq> i" by blast
    then show ?thesis
    proof cases
      case 1
      then have "f d \<noteq> outcome" using legal h(3) by (simp add: cell_legal_def)
      then show ?thesis using 1 sym by auto
    next
      case 2
      then have "f c \<noteq> outcome" using legal sym(1) by (simp add: cell_legal_def)
      then show ?thesis using 2 by simp
    next
      case 3
      then show ?thesis using h ok by (simp add: board_ok_def links_distinct_def)
    qed
  qed
  then have l: "links_distinct (f(i := outcome))" by (simp add: links_distinct_def)
  show ?thesis using c r l by (simp add: board_ok_def)
qed

lemma board_ok_miss:
  assumes ok: "board_ok f" and nt: "- 20 < f 27"
  shows "board_ok (f(27 := f 27 + kDefaultMissPoints))"
proof -
  from ok have m: "f 27 mod 5 = 0" "f 27 \<le> 0" by (simp_all add: board_ok_def cells_bounded_def)
  have "x mod 5 = 0 \<Longrightarrow> - 20 < x \<Longrightarrow> - 15 \<le> x \<and> (x - 5) mod 5 = 0" for x :: int
    by presburger
  from this [OF m(1) nt] have "- 15 \<le> f 27" "(f 27 - 5) mod 5 = 0" by simp_all
  then
  have c: "cells_bounded (f(27 := f 27 + kDefaultMissPoints))"
    using ok m by (auto simp: board_ok_def cells_bounded_def kDefaultMissPoints_def)
  have r: "rows_increasing (f(27 := f 27 + kDefaultMissPoints))"
    using ok by (simp add: board_ok_def rows_increasing_def)
  have "(f(27 := v)) c \<noteq> (f(27 := v)) d"
    if h: "0 \<le> c" "c \<le> 26" "d \<in> set (linked_cells c)" "(f(27 := v)) c \<noteq> 0" for c d v
  proof -
    from linked_cells_sym [OF h(1,2,3)] have "d \<le> 26" by simp
    then show ?thesis using h ok by (simp add: board_ok_def links_distinct_def)
  qed
  then have l: "links_distinct (f(27 := f 27 + kDefaultMissPoints))"
    by (simp add: links_distinct_def)
  show ?thesis using c r l by (simp add: board_ok_def)
qed

lemma board_ok_zero: "board_ok (\<lambda>k. 0)"
  by (simp add: board_ok_def cells_bounded_def rows_increasing_def links_distinct_def)

section \<open>The boards on reachable states\<close>

lemma drop_cell:
  assumes "0 \<le> p" "0 \<le> k" "p * 28 + k < int (length sc)"
  shows "drop (nat (p * 28)) sc ! nat k = cell sc p k"
proof -
  have "nat (p * 28) \<le> length sc" using assms by linarith
  moreover have "nat (p * 28) + nat k = nat (p * 28 + k)" using assms by (simp add: nat_add_distrib)
  ultimately show ?thesis by (simp add: cell_def)
qed

lemma cell_legal_cong:
  assumes "\<forall>k. 0 \<le> k \<and> k < 28 \<longrightarrow> g k = f k" "0 \<le> i" "i \<le> 26" "cell_legal outcome f i"
  shows "cell_legal outcome g i"
proof -
  have "g j = f j" if "(i div 9) * 9 \<le> j" "j < (i div 9) * 9 + 9" for j
  proof -
    have "0 \<le> (i div 9) * 9" "(i div 9) * 9 + 9 \<le> 27" using assms(2,3) by simp_all
    then show ?thesis using that assms(1) by simp
  qed
  moreover have "g d = f d" if "d \<in> set (linked_cells i)" for d
    using linked_cells_sym [OF assms(2,3) that] assms(1) by simp
  moreover have "g i = f i" using assms by simp
  ultimately show ?thesis using assms(4) row_bounds(1,2) [of i]
    by (simp add: cell_legal_def)
qed

lemma board_suffix_length:
  assumes len: "int (length (sc::int list)) = n * 28" and p: "0 \<le> p" "p < n"
  shows "28 \<le> length (drop (nat (p * 28)) sc)"
proof -
  have "p * 28 + 28 \<le> n * 28" using p by simp
  then have "nat (p * 28) + 28 \<le> length sc" using len p by linarith
  then show ?thesis by simp
qed

lemma legal_joint_nth:
  assumes "legal_joint K s actions" "0 \<le> p" "p < num_players s"
  shows "legal_component K s p (actions ! nat p)"
  using assms by (simp add: legal_joint_def list_all_iff)


lemma legal_submit_cells:
  assumes inv: "turn_inv n s" and p: "0 \<le> p" "p < n" and ph: "phase s = kSubmitPoints"
    and legal: "legal_component K s p a"
  shows "a = (if p = current_player s then kActionMiss K else kActionSkip K) \<or>
         (0 \<le> a \<and> a \<le> 26 \<and> cell_legal (dice_outcome s) (cell (scores s) p) a)"
proof (cases "a = (if p = current_player s then kActionMiss K else kActionSkip K)")
  case True
  then show ?thesis by simp
next
  case False
  define b where "b = drop (nat (p * 28)) (scores s)"
  from legal_submit [OF p(1) ph legal] False
  have "0 \<le> a \<and> a \<le> 26 \<and> field_legal s b a" unfolding b_def by blast
  then have a: "0 \<le> a" "a \<le> 26" and f: "field_legal s b a" by simp_all
  have len: "int (length (scores s)) = n * 28" using inv by (simp add: turn_inv_def)
  have "28 \<le> length b" unfolding b_def using len p by (rule board_suffix_length)
  from field_legal_cells [OF this a f]
  have cl: "cell_legal (dice_outcome s) (\<lambda>k. b ! nat k) a" .
  have eq: "\<forall>k. 0 \<le> k \<and> k < 28 \<longrightarrow> cell (scores s) p k = b ! nat k"
  proof (intro allI impI)
    fix k :: int assume k: "0 \<le> k \<and> k < 28"
    have "p * 28 + 28 \<le> n * 28" using p by simp
    then have "p * 28 + k < int (length (scores s))" using len k by linarith
    then have "drop (nat (p * 28)) (scores s) ! nat k = cell (scores s) p k"
      using p(1) k by (intro drop_cell) simp_all
    then show "cell (scores s) p k = b ! nat k" unfolding b_def by simp
  qed
  have "cell_legal (dice_outcome s) (cell (scores s) p) a"
    using eq a cl by (rule cell_legal_cong)
  then show ?thesis using a by simp
qed

lemma legal_joint_range:
  assumes inv: "turn_inv n s" and ok: "sentinels_ok K" and ph: "phase s = kSubmitPoints"
    and legal: "legal_joint K s actions"
  shows "\<forall>a\<in>set actions. a = kActionSkip K \<or> (0 \<le> a \<and> a < 28)"
proof
  fix a assume "a \<in> set actions"
  then obtain j where j: "j < length actions" "actions ! j = a" by (auto simp: in_set_conv_nth)
  have n: "num_players s = n" using inv by (simp add: turn_inv_def)
  have len: "int (length actions) = n" using legal n by (simp add: legal_joint_def)
  then have p: "0 \<le> int j" "int j < n" using j by simp_all
  from legal_joint_nth [OF legal, of "int j"] p n j
  have "legal_component K s (int j) a" by simp
  from legal_submit_cells [OF inv p ph this]
  have "a = kActionMiss K \<or> a = kActionSkip K \<or> (0 \<le> a \<and> a \<le> 26)"
    by (cases "int j = current_player s") auto
  moreover have "kActionMiss K = 27" using ok by (simp add: sentinels_ok_def game_defs)
  ultimately show "a = kActionSkip K \<or> (0 \<le> a \<and> a < 28)" by auto
qed

lemma not_terminal_miss:
  assumes "\<not> IsTerminal s" "0 \<le> p" "p < num_players s"
  shows "- 20 < cell (scores s) p 27"
proof (rule ccontr)
  assume "\<not> - 20 < cell (scores s) p 27"
  then have "0 \<le> p \<and> p < num_players s \<and> cell (scores s) p 27 \<le> - 20"
    using assms by simp
  then have "IsTerminal s" unfolding IsTerminal_iff by (rule exI)
  then show False using assms(1) by simp
qed

lemma boards_inv_DoApplyActions:
  assumes inv: "turn_inv n s" and b: "boards_inv n s" and ok: "sentinels_ok K"
    and legal: "legal_joint K s actions" and app: "DoApplyActions K s actions = Inr s'"
  shows "boards_inv n s'"
proof -
  have n: "num_players s = n" "0 \<le> dice_outcome s" "dice_outcome s \<le> 18"
    using inv by (simp_all add: turn_inv_def)
  have ph: "phase s = kSubmitPoints" using app by (rule DoApplyActions_Inr)
  have range: "\<forall>a\<in>set actions. a = kActionSkip K \<or> (0 \<le> a \<and> a < 28)"
    using inv ok ph legal by (rule legal_joint_range)
  note cells = DoApplyActions_cells(1,2) [OF inv app range]
  have miss: "kActionMiss K = 27"
    using ok by (simp add: sentinels_ok_def game_defs)
  have "board_ok (cell (scores s') p)" if p: "0 \<le> p" "p < n" for p
  proof -
    define a where "a = actions ! nat p"
    define f where "f = cell (scores s) p"
    have okf: "board_ok f" using b p by (simp add: boards_inv_def f_def)
    have lc: "legal_component K s p a"
      using legal_joint_nth [OF legal] p n by (simp add: a_def)
    then have nt: "\<not> IsTerminal s" using legal_component_real [OF p(1)] by simp
    have eff: "\<forall>k. 0 \<le> k \<and> k < 28 \<longrightarrow>
        cell (scores s') p k = component_effect K (dice_outcome s) a k (f k)"
      using cells(1) p by (simp add: a_def f_def)
    consider "a = kActionSkip K" | "a \<noteq> kActionSkip K" "a = kActionMiss K"
      | "a \<noteq> kActionSkip K" "a \<noteq> kActionMiss K" by blast
    then show ?thesis
    proof cases
      case 1
      then have "\<forall>k. 0 \<le> k \<and> k < 28 \<longrightarrow> cell (scores s') p k = f k"
        using eff by (simp add: component_effect_eq)
      then show ?thesis using okf by (rule board_ok_cong)
    next
      case 2
      have "- 20 < f 27" using not_terminal_miss [OF nt] p n by (simp add: f_def)
      then have "board_ok (f(27 := f 27 + kDefaultMissPoints))" using okf board_ok_miss by simp
      moreover have "\<forall>k. 0 \<le> k \<and> k < 28 \<longrightarrow>
          cell (scores s') p k = (f(27 := f 27 + kDefaultMissPoints)) k"
        using eff 2 miss by (simp add: component_effect_eq)
      ultimately show ?thesis by (rule board_ok_cong [rotated])
    next
      case 3
      then have "a \<noteq> (if p = current_player s then kActionMiss K else kActionSkip K)"
        by simp
      with legal_submit_cells [OF inv p ph lc]
      have a: "0 \<le> a" "a \<le> 26" and cl: "cell_legal (dice_outcome s) f a"
        unfolding f_def by blast+
      have "board_ok (f(a := dice_outcome s))"
        using okf cl a n(2,3) by (rule board_ok_place)
      moreover have "\<forall>k. 0 \<le> k \<and> k < 28 \<longrightarrow>
          cell (scores s') p k = (f(a := dice_outcome s)) k"
        using eff 3 by (simp add: component_effect_eq)
      ultimately show ?thesis by (rule board_ok_cong [rotated])
    qed
  qed
  then show ?thesis by (simp add: boards_inv_def)
qed

lemma boards_inv_initial: "1 \<le> n \<Longrightarrow> boards_inv n (NewInitialState n)"
proof -
  have "board_ok (cell (scores (NewInitialState n)) p)" if "0 \<le> p" "p < n" for p
  proof (rule board_ok_cong [OF _ board_ok_zero])
    show "\<forall>k. 0 \<le> k \<and> k < 28 \<longrightarrow> cell (scores (NewInitialState n)) p k = 0"
      using that by (simp add: example_scores cell_replicate)
  qed
  then show ?thesis by (simp add: boards_inv_def)
qed

lemma reachable_boards_inv:
  assumes "reachable K n s" "sentinels_ok K"
  shows "boards_inv n s"
  using assms(1)
proof (induction rule: reachable.induct)
  case initial
  then show ?case by (simp add: boards_inv_initial)
next
  case (apply_action s a s')
  from turn_inv_DoApplyAction [OF reachable_turn_inv [OF apply_action(1)] apply_action(2,3,4)]
  have "scores s' = scores s" by simp
  then show ?case using apply_action.IH by (simp add: boards_inv_def)
next
  case (apply_actions s actions s')
  from reachable_turn_inv [OF apply_actions(1)] apply_actions.IH assms(2) apply_actions(3,4)
  show ?case by (rule boards_inv_DoApplyActions)
qed

text \<open>Together: the invariant of the reachable states.\<close>

lemma reachable_inv:
  assumes "reachable K n s" "sentinels_ok K"
  shows "turn_inv n s \<and> boards_inv n s"
  using assms reachable_turn_inv reachable_boards_inv by blast

section \<open>More example states\<close>

lemma example_consts_ok: "sentinels_ok example_consts"
  by (simp add: sentinels_ok_def example_consts_def game_defs)

lemma submitting_fields:
  "phase (submitting n) = kSubmitPoints" "current_player (submitting n) = 0"
  "dice (submitting n) = 1" "dice_outcome (submitting n) = 3"
  by (simp_all add: submitting_def rolled_def selected_def NewInitialState_def)

section \<open>Plays reach reachable states\<close>

lemma play_reachable:
  assumes "reachable K n s" "play K s ms = Some s'"
  shows "reachable K n s'"
  using assms
proof (induction ms arbitrary: s)
  case Nil
  then show ?case by simp
next
  case (Cons m ms)
  show ?case
  proof (cases m)
    case (Single a)
    with Cons.prems(2) obtain s1 where "CurrentPlayer s \<noteq> kSimultaneousPlayerId"
      "legal_component K s (CurrentPlayer s) a" "DoApplyAction K s a = Inr s1"
      "play K s1 ms = Some s'"
      by (auto split: if_splits sum.splits)
    then show ?thesis using Cons.IH Cons.prems(1) reachable.apply_action by blast
  next
    case (Joint actions)
    with Cons.prems(2) obtain s1 where "CurrentPlayer s = kSimultaneousPlayerId"
      "legal_joint K s actions" "DoApplyActions K s actions = Inr s1"
      "play K s1 ms = Some s'"
      by (auto split: if_splits sum.splits)
    then show ?thesis using Cons.IH Cons.prems(1) reachable.apply_actions by blast
  qed
qed

lemma play_filled:
  "play example_consts (NewInitialState 1)
     [Single 1, Single 3, Single 1, Joint [5],
      Single 1, Single 5, Single 1, Joint [7],
      Single 4, Single 4, Single 1, Joint [15]] = Some filled"
  by code_simp

lemma reachable_filled: "reachable example_consts 1 filled"
  by (rule play_reachable [OF _ play_filled]) (simp add: reachable.initial)

section \<open>Row order (claim C4)\<close>

lemma sorted_wrt_filter_nth:
  assumes "\<forall>i j. i < j \<and> j < length xs \<and> P (xs ! i) \<and> P (xs ! j) \<longrightarrow> R (xs ! i) (xs ! j)"
  shows "sorted_wrt R (filter P xs)"
proof -
  have "sorted_wrt (\<lambda>x y. P x \<and> P y \<longrightarrow> R x y) xs"
    using assms by (simp add: sorted_wrt_iff_nth_less)
  then have "sorted_wrt (\<lambda>x y. P x \<and> P y \<longrightarrow> R x y) (filter P xs)"
    by (rule sorted_wrt_filter)
  then show ?thesis by (rule sorted_wrt_mono_rel [rotated]) simp
qed

lemma row_of_nth:
  assumes inv: "turn_inv n s" and p: "0 \<le> p" "p < n" and r: "r \<in> {0, 1, 2}" and j: "j < 9"
  shows "length (row_of s p r) = 9" "row_of s p r ! j = cell (scores s) p (r * 9 + int j)"
proof -
  have len: "int (length (scores s)) = n * 28" using inv by (simp add: turn_inv_def)
  have r2: "0 \<le> r" "r \<le> 2" using r by auto
  have "p * 28 + 28 \<le> n * 28" using p by simp
  then have b: "p * 28 + r * 9 + 9 \<le> int (length (scores s))" using len r2 by linarith
  have nn: "0 \<le> p * 28 + r * 9" using p r2 by simp
  then have le: "nat (p * 28 + r * 9) + 9 \<le> length (scores s)" using b by linarith
  then show "length (row_of s p r) = 9" by (simp add: row_of_def)
  have "nat (p * 28 + r * 9) + j = nat (p * 28 + (r * 9 + int j))" using nn by linarith
  then show "row_of s p r ! j = cell (scores s) p (r * 9 + int j)"
    using le j by (simp add: row_of_def cell_def)
qed

text \<open>
  Claim C4. In every state reachable by legal actions, for every player and every colour
  row of that player's board, the non-zero values of the row, read from left to right,
  are strictly increasing. (The sentinels are as the spec describes them.)
\<close>

theorem rows_strictly_increasing:
  assumes "reachable K n s" "sentinels_ok K" "0 \<le> p" "p < n" "r \<in> {0, 1, 2}"
  shows "sorted_wrt (<) (filter (\<lambda>v. v \<noteq> 0) (row_of s p r))"
proof (rule sorted_wrt_filter_nth, intro allI impI)
  fix i j
  assume h: "i < j \<and> j < length (row_of s p r) \<and> row_of s p r ! i \<noteq> 0 \<and> row_of s p r ! j \<noteq> 0"
  from reachable_inv [OF assms(1,2)] have inv: "turn_inv n s" and b: "boards_inv n s"
    by simp_all
  note row = row_of_nth [OF inv assms(3,4,5)]
  have j: "j < 9" "i < 9" using h row(1) [of 0] by simp_all
  have inc: "rows_increasing (cell (scores s) p)"
    using b assms(3,4) by (simp add: boards_inv_def board_ok_def)
  have r2: "0 \<le> r" "r \<le> 2" using assms(5) by auto
  have "(r * 9 + int i) div 9 = r" "(r * 9 + int j) div 9 = r" using j by simp_all
  moreover have "0 \<le> r * 9 + int i" "r * 9 + int i < r * 9 + int j" "r * 9 + int j \<le> 26"
    using r2 j h by simp_all
  ultimately have "cell (scores s) p (r * 9 + int i) < cell (scores s) p (r * 9 + int j)"
    using inc h row(2) [OF j(1)] row(2) [OF j(2)]
    unfolding rows_increasing_def by metis
  then show "row_of s p r ! i < row_of s p r ! j"
    using row(2) [OF j(1)] row(2) [OF j(2)] by simp
qed

theorem rows_strictly_increasing_witness:
  "reachable example_consts 1 filled \<and> sentinels_ok example_consts \<and>
   row_of filled 0 0 = [0, 0, 0, 0, 0, 3, 0, 5, 0] \<and>
   filter (\<lambda>v. v \<noteq> 0) (row_of filled 0 0) = [3, 5] \<and>
   sorted_wrt (<) (filter (\<lambda>v. v \<noteq> 0) (row_of filled 0 0))"
proof -
  have "row_of filled 0 0 = [0, 0, 0, 0, 0, 3, 0, 5, 0]" by code_simp
  then show ?thesis
    using rows_strictly_increasing [OF reachable_filled example_consts_ok, of 0 0]
      reachable_filled example_consts_ok
    by simp
qed

section \<open>Linked cells (claim C5)\<close>

text \<open>
  Claim C5. In every state reachable by legal actions, no two cells of one player's board
  that the pairing table links hold the same non-zero value.
\<close>

theorem linked_cells_differ:
  assumes "reachable K n s" "sentinels_ok K" "0 \<le> p" "p < n" "0 \<le> c" "c \<le> 26"
    "d \<in> set (linked_cells c)" "cell (scores s) p c \<noteq> 0"
  shows "cell (scores s) p c \<noteq> cell (scores s) p d"
proof -
  from reachable_inv [OF assms(1,2)] have "links_distinct (cell (scores s) p)"
    using assms(3,4) by (simp add: boards_inv_def board_ok_def)
  then show ?thesis using assms(5-8) unfolding links_distinct_def by blast
qed

theorem linked_cells_differ_witness:
  "reachable example_consts 1 filled \<and> sentinels_ok example_consts \<and>
   15 \<in> set (linked_cells 5) \<and> cell (scores filled) 0 5 = 3 \<and>
   cell (scores filled) 0 15 = 4 \<and>
   cell (scores filled) 0 5 \<noteq> cell (scores filled) 0 15"
proof -
  have l: "15 \<in> set (linked_cells 5)" by (simp add: linked_cells_def)
  have c: "cell (scores filled) 0 5 = 3" "cell (scores filled) 0 15 = 4" by code_simp+
  from linked_cells_differ [OF reachable_filled example_consts_ok _ _ _ _ l, of 0]
  show ?thesis using reachable_filled example_consts_ok l c by simp
qed

section \<open>A finished game\<close>

lemma play_finished:
  "play example_consts (NewInitialState 1)
     [Single 1, Single 3, Single 1, Joint [0],
      Single 1, Single 3, Single 1, Joint [27],
      Single 1, Single 3, Single 1, Joint [27],
      Single 1, Single 3, Single 1, Joint [27],
      Single 1, Single 3, Single 1, Joint [27]] = Some finished"
  by code_simp

lemma reachable_finished: "reachable example_consts 1 finished"
  by (rule play_reachable [OF _ play_finished]) (simp add: reachable.initial)

lemma finished_terminal: "IsTerminal finished"
  by code_simp

section \<open>Returns (claim C6)\<close>

lemma length_filter_all: "length (filter P xs) = length xs \<longleftrightarrow> list_all P xs"
proof (induction xs)
  case Nil
  then show ?case by simp
next
  case (Cons x xs)
  have "length (filter P xs) \<noteq> Suc (length xs)"
    using length_filter_le [of P xs] by linarith
  then show ?case using Cons by auto
qed

lemma row_return_contribution:
  assumes "9 \<le> length row" "\<forall>v\<in>set (take 9 row). 0 \<le> v"
  shows "row_return row = row_contribution (take 9 row)"
proof -
  define xs where "xs = take 9 row"
  have len: "length xs = 9" using assms(1) by (simp add: xs_def)
  have "filter (\<lambda>a. a > 0) xs = filter (\<lambda>v. v \<noteq> 0) xs"
    using assms(2) by (intro filter_cong) (auto simp: xs_def)
  then have cnt: "int (length (filter (\<lambda>a. a > 0) xs)) = 9 \<longleftrightarrow> list_all (\<lambda>v. v \<noteq> 0) xs"
    using length_filter_all [of "\<lambda>v. v \<noteq> 0" xs] len by simp
  have "xs \<noteq> []" using len by auto
  then have "last xs = xs ! 8" using len by (simp add: last_conv_nth)
  then have lst: "last xs = row ! 8" by (simp add: xs_def)
  show ?thesis
    unfolding row_return_def row_contribution_def Let_def kDefaultNumFields_def
    using cnt lst \<open>filter (\<lambda>a. a > 0) xs = filter (\<lambda>v. v \<noteq> 0) xs\<close>
    by (simp add: xs_def)
qed

lemma board_rows:
  assumes "28 \<le> length b" "\<forall>k<27. 0 \<le> b ! k" "r \<le> 2"
  shows "take 9 (drop (9 * r) (take 28 b)) = take 9 (drop (9 * r) b)"
    "row_return (drop (9 * r) b) = row_contribution (take 9 (drop (9 * r) b))"
proof -
  show "take 9 (drop (9 * r) (take 28 b)) = take 9 (drop (9 * r) b)"
    using assms(3) by (simp add: drop_take min_def)
  have "0 \<le> v" if "v \<in> set (take 9 (drop (9 * r) b))" for v
  proof -
    from that obtain j where j: "j < 9" "j < length (drop (9 * r) b)"
      "v = take 9 (drop (9 * r) b) ! j"
      by (auto simp: in_set_conv_nth)
    then have "v = b ! (9 * r + j)" using assms(1,3) by simp
    moreover have "9 * r + j < 27" using j(1) assms(3) by linarith
    ultimately show ?thesis using assms(2) by simp
  qed
  moreover have "9 \<le> length (drop (9 * r) b)" using assms(1,3) by simp
  ultimately show "row_return (drop (9 * r) b) = row_contribution (take 9 (drop (9 * r) b))"
    by (intro row_return_contribution) simp_all
qed

lemma board_final_score:
  assumes "28 \<le> length b" "\<forall>k<27. 0 \<le> b ! k"
  shows "row_return b + row_return (drop 9 b) + row_return (drop 9 (drop 9 b))
       + (if b ! 0 > 0 \<and> b ! 10 > 0 \<and> b ! 20 > 0 then b ! 20 else 0)
       + (if b ! 1 > 0 \<and> b ! 11 > 0 \<and> b ! 21 > 0 then b ! 1 else 0)
       + (if b ! 4 > 0 \<and> b ! 14 > 0 \<and> b ! 24 > 0 then b ! 4 else 0)
       + (if b ! 5 > 0 \<and> b ! 15 > 0 \<and> b ! 25 > 0 then b ! 15 else 0)
       + (if b ! 6 > 0 \<and> b ! 16 > 0 \<and> b ! 26 > 0 then b ! 26 else 0)
       + b ! 27 = final_score (take 28 b)"
proof -
  have pos: "b ! k > 0 \<longleftrightarrow> take 28 b ! k \<noteq> 0" if "k < 27" for k
  proof -
    have "0 \<le> b ! k" using assms(2) that by simp
    then show ?thesis using that by auto
  qed
  have rows: "row_contribution (take 9 (drop (9 * r) (take 28 b))) = row_return (drop (9 * r) b)"
    if "r \<le> 2" for r
    using board_rows [OF assms that] by simp
  have "row_return b = row_contribution (take 9 (take 28 b))"
    using rows [of 0] by simp
  moreover have "row_return (drop 9 b) = row_contribution (take 9 (drop 9 (take 28 b)))"
    using rows [of 1] by simp
  moreover have "row_return (drop 9 (drop 9 b))
      = row_contribution (take 9 (drop 18 (take 28 b)))"
    using rows [of 2] by simp
  ultimately show ?thesis
    by (simp add: final_score_def diagonals_def pos)
qed

lemma player_return_board:
  "player_return s p =
     (let b = drop (nat (p * 28)) (scores s) in
      row_return b + row_return (drop 9 b) + row_return (drop 9 (drop 9 b))
       + (if b ! 0 > 0 \<and> b ! 10 > 0 \<and> b ! 20 > 0 then b ! 20 else 0)
       + (if b ! 1 > 0 \<and> b ! 11 > 0 \<and> b ! 21 > 0 then b ! 1 else 0)
       + (if b ! 4 > 0 \<and> b ! 14 > 0 \<and> b ! 24 > 0 then b ! 4 else 0)
       + (if b ! 5 > 0 \<and> b ! 15 > 0 \<and> b ! 25 > 0 then b ! 15 else 0)
       + (if b ! 6 > 0 \<and> b ! 16 > 0 \<and> b ! 26 > 0 then b ! 26 else 0)
       + b ! 27)"
  unfolding player_return_def game_defs by simp

lemma player_return_final_score:
  assumes inv: "turn_inv n s" and b: "boards_inv n s" and p: "0 \<le> p" "p < n"
  shows "player_return s p = final_score (board_of s p)"
proof -
  define bd where "bd = drop (nat (p * 28)) (scores s)"
  have len: "int (length (scores s)) = n * 28" using inv by (simp add: turn_inv_def)
  have l28: "28 \<le> length bd" unfolding bd_def using len p by (rule board_suffix_length)
  have cb: "cells_bounded (cell (scores s) p)"
    using b p by (simp add: boards_inv_def board_ok_def)
  have nonneg: "\<forall>k<27. 0 \<le> bd ! k"
  proof (intro allI impI)
    fix k :: nat assume k: "k < 27"
    have "p * 28 + 28 \<le> n * 28" using p by simp
    then have "p * 28 + int k < int (length (scores s))" using len k by linarith
    then have "drop (nat (p * 28)) (scores s) ! nat (int k) = cell (scores s) p (int k)"
      using p(1) by (intro drop_cell) simp_all
    then have "bd ! k = cell (scores s) p (int k)" by (simp add: bd_def)
    moreover have "0 \<le> int k \<and> int k \<le> 26" using k by simp
    then have "0 \<le> cell (scores s) p (int k)" using cb unfolding cells_bounded_def by blast
    ultimately show "0 \<le> bd ! k" by simp
  qed
  have "player_return s p = final_score (take 28 bd)"
    unfolding player_return_board Let_def bd_def [symmetric]
    by (rule board_final_score [OF l28 nonneg])
  then show ?thesis by (simp add: board_of_def bd_def)
qed

text \<open>
  Claim C6. On a terminal state \<open>Returns\<close> gives each player the score of that player's
  own board: per colour row the last field if all nine fields are filled and the number
  of filled fields otherwise, plus the designated member of each diagonal triple whose
  three cells are non-zero, plus the miss slot. On a state that is not terminal it gives
  every player 0.
\<close>

theorem returns_final_score:
  assumes "reachable K n s" "sentinels_ok K"
  shows "Returns s =
    (if IsTerminal s then map (\<lambda>p. final_score (board_of s p)) [0 .. n - 1]
     else replicate (nat n) 0)"
proof -
  from reachable_inv [OF assms] have inv: "turn_inv n s" and b: "boards_inv n s" by simp_all
  then have n: "num_players s = n" by (simp add: turn_inv_def)
  have "map (player_return s) [0 .. n - 1] = map (\<lambda>p. final_score (board_of s p)) [0 .. n - 1]"
    by (rule map_cong) (simp_all add: player_return_final_score [OF inv b])
  then show ?thesis by (simp add: Returns_def n)
qed

theorem returns_final_score_witness:
  "reachable example_consts 1 finished \<and> sentinels_ok example_consts \<and> IsTerminal finished \<and>
   Returns finished = [- 19] \<and> final_score (board_of finished 0) = - 19"
proof -
  have "[0 .. 1 - 1] = [0::int]" by (simp add: upto_rec1)
  moreover have "final_score (board_of finished 0) = - 19" by code_simp
  ultimately show ?thesis
    using returns_final_score [OF reachable_finished example_consts_ok]
      reachable_finished example_consts_ok finished_terminal
    by simp
qed

section \<open>The effect of a legal joint action (claim C8)\<close>

lemma play_scenario:
  "play example_consts (NewInitialState 3)
     [Single 1, Single 3, Single 1, Joint [27, 28, 28],
      Single 1, Single 3, Single 1] = Some scenario"
  by code_simp

lemma reachable_scenario: "reachable example_consts 3 scenario"
  by (rule play_reachable [OF _ play_scenario]) (simp add: reachable.initial)

lemma legal_component_checked:
  assumes inv: "turn_inv n s" and ok: "sentinels_ok K" and ph: "phase s = kSubmitPoints"
    and p: "0 \<le> p" "p < n" and legal: "legal_component K s p a"
  shows "component_checked K (current_player s) p a"
proof -
  have k: "kActionMiss K = 27" "kActionSkip K < 0 \<or> 27 < kActionSkip K"
    using ok by (simp_all add: sentinels_ok_def game_defs)
  from legal_submit_cells [OF inv p ph legal]
  consider "p = current_player s" "a = kActionMiss K" | "p \<noteq> current_player s" "a = kActionSkip K"
    | "0 \<le> a" "a \<le> 26"
    by (cases "p = current_player s") auto
  then show ?thesis
  proof cases
    case 1
    then show ?thesis using k by (auto simp: component_checked_def)
  next
    case 2
    then show ?thesis using k by (auto simp: component_checked_def)
  next
    case 3
    then show ?thesis using k by (auto simp: component_checked_def)
  qed
qed

lemma legal_joint_total:
  assumes inv: "turn_inv n s" and ok: "sentinels_ok K" and ph: "phase s = kSubmitPoints"
    and legal: "legal_joint K s actions"
  shows "\<exists>s'. DoApplyActions K s actions = Inr s'"
proof -
  have n: "num_players s = n" "1 \<le> n" "int (length (scores s)) = n * 28"
    using inv by (simp_all add: turn_inv_def)
  have len: "int (length actions) = n" using legal n by (simp add: legal_joint_def)
  have range: "\<forall>a\<in>set actions. a = kActionSkip K \<or> (0 \<le> a \<and> a < 28)"
    using inv ok ph legal by (rule legal_joint_range)
  have chk: "\<forall>j<length actions. component_checked K (current_player s) (0 + int j) (actions ! j)"
  proof (intro allI impI)
    fix j assume j: "j < length actions"
    then have p: "0 \<le> int j" "int j < n" using len by simp_all
    from legal_joint_nth [OF legal, of "int j"] p n
    have "legal_component K s (int j) (actions ! j)" by simp
    from legal_component_checked [OF inv ok ph p this]
    show "component_checked K (current_player s) (0 + int j) (actions ! j)" by simp
  qed
  have "(0 + int (length actions)) * 28 \<le> int (length (scores s))" using len n by simp
  from submit_loop_cases [OF _ this range, of "current_player s" "dice_outcome s"] chk
  obtain sc' where
    "submit_loop K (current_player s) (dice_outcome s) 0 actions (scores s) = Inr sc'"
    by auto
  then show ?thesis using len n ph by (simp add: DoApplyActions_def Let_def)
qed

text \<open>
  Claim C8. Applying a legal joint action in the submit phase of a reachable state does
  not abort. In the new state a cell component has set its player's cell to the dice
  outcome, a miss component (which only the active player submits) has added the penalty
  to its player's miss slot, every other cell of every board is as before, the phase is
  \<open>SelectDice\<close>, and the active and the awaited player are
  \<open>(current_player_ + 1) mod num_players\<close>.
\<close>

theorem joint_action_effect:
  assumes "reachable K n s" "sentinels_ok K" "phase s = kSubmitPoints"
    "legal_joint K s actions"
  shows "case DoApplyActions K s actions of
      Inl e \<Rightarrow> False
    | Inr s' \<Rightarrow>
        phase s' = kSelectDice \<and>
        current_player s' = (current_player s + 1) mod n \<and>
        player s' = (current_player s + 1) mod n \<and>
        num_players s' = n \<and> dice s' = dice s \<and> dice_outcome s' = dice_outcome s \<and>
        length (scores s') = length (scores s) \<and>
        (\<forall>p k. 0 \<le> p \<and> p < n \<and> 0 \<le> k \<and> k \<le> 27 \<longrightarrow>
           cell (scores s') p k =
             (if actions ! nat p = k
              then (if k = 27 then cell (scores s) p 27 + kDefaultMissPoints
                    else dice_outcome s)
              else cell (scores s) p k)) \<and>
        (\<forall>p. 0 \<le> p \<and> p < n \<and> actions ! nat p = 27 \<longrightarrow> p = current_player s)"
proof -
  have inv: "turn_inv n s" using assms(1) by (rule reachable_turn_inv)
  from legal_joint_total [OF inv assms(2,3,4)]
  obtain s' where app: "DoApplyActions K s actions = Inr s'" by blast
  have k: "kActionMiss K = 27" "kActionSkip K < 0 \<or> 27 < kActionSkip K"
    using assms(2) by (simp_all add: sentinels_ok_def game_defs)
  have range: "\<forall>a\<in>set actions. a = kActionSkip K \<or> (0 \<le> a \<and> a < 28)"
    using inv assms(2,3,4) by (rule legal_joint_range)
  note eff = DoApplyActions_cells [OF inv app range]
  have len: "length (scores s') = length (scores s)"
    using app by (auto elim!: DoApplyActions_Inr dest: submit_loop_length)
  have cells: "cell (scores s') p k =
             (if actions ! nat p = k
              then (if k = 27 then cell (scores s) p 27 + kDefaultMissPoints
                    else dice_outcome s)
              else cell (scores s) p k)"
    if "0 \<le> p \<and> p < n \<and> 0 \<le> k \<and> k \<le> 27" for p k
  proof -
    have "cell (scores s') p k
      = component_effect K (dice_outcome s) (actions ! nat p) k (cell (scores s) p k)"
      using eff(1) that by simp
    then show ?thesis using k that by (auto simp: component_effect_eq)
  qed
  have miss: "p = current_player s" if "0 \<le> p \<and> p < n \<and> actions ! nat p = 27" for p
  proof -
    have "component_checked K (current_player s) p (actions ! nat p)" using eff(2) that by blast
    then show ?thesis using that k by (auto simp: component_checked_def)
  qed
  show ?thesis
    unfolding app using eff(3-9) len cells miss by simp
qed

theorem joint_action_effect_witness:
  "reachable example_consts 3 scenario \<and> sentinels_ok example_consts \<and>
   phase scenario = kSubmitPoints \<and> legal_joint example_consts scenario [28, 27, 28] \<and>
   DoApplyActions example_consts scenario [28, 27, 28]
     = Inr (scenario\<lparr>scores := (replicate 84 0)[27 := - 5, 55 := - 5], phase := kSelectDice,
              current_player := 2, player := 2\<rparr>) \<and>
   (case DoApplyActions example_consts scenario [28, 27, 28] of
      Inl e \<Rightarrow> False
    | Inr s' \<Rightarrow> phase s' = kSelectDice \<and> current_player s' = 2 \<and>
        cell (scores s') 1 27 = cell (scores scenario) 1 27 + kDefaultMissPoints \<and>
        cell (scores s') 0 27 = cell (scores scenario) 0 27 \<and>
        cell (scores s') 2 27 = cell (scores scenario) 2 27)"
proof -
  have ph: "phase scenario = kSubmitPoints" by (simp add: scenario_def)
  have lj: "legal_joint example_consts scenario [28, 27, 28]" by code_simp
  have app: "DoApplyActions example_consts scenario [28, 27, 28]
     = Inr (scenario\<lparr>scores := (replicate 84 0)[27 := - 5, 55 := - 5], phase := kSelectDice,
              current_player := 2, player := 2\<rparr>)"
    by code_simp
  have cur: "current_player scenario = 1" by (simp add: scenario_def)
  from joint_action_effect [OF reachable_scenario example_consts_ok ph lj]
  show ?thesis
    using reachable_scenario example_consts_ok ph lj app
    by (simp add: cur split: sum.splits)
qed

section \<open>Terminal states stay terminal (claim C7)\<close>

lemma terminal_no_legal_action:
  assumes "IsTerminal s"
  shows "\<not> legal_component K s (CurrentPlayer s) a"
  using assms legal_terminal by (simp add: CurrentPlayer_def)

lemma component_effect_miss_slot:
  assumes "a = kActionSkip K \<or> a = kActionMiss K \<or> (0 \<le> a \<and> a \<le> 26)"
  shows "component_effect K outcome a 27 v \<le> v"
  using assms by (auto simp: component_effect_eq kDefaultMissPoints_def)

text \<open>
  Claim C7. Once a state is terminal it stays terminal. A terminal state has no legal
  action (\<open>terminal_no_legal_action\<close>), so the statement is proved for every action that
  the engine accepts there: any action through \<open>DoApplyAction\<close>, and any joint action
  through \<open>DoApplyActions\<close> whose components are action ids of the submit phase (skip,
  miss or a field). No miss slot increases, so the state reached is terminal.
\<close>

theorem terminal_persists:
  assumes "sentinels_ok K" "IsTerminal s"
    "DoApplyAction K s a = Inr s' \<or>
     (DoApplyActions K s actions = Inr s' \<and>
      (\<forall>a\<in>set actions. a = kActionSkip K \<or> a = kActionMiss K \<or> (0 \<le> a \<and> a \<le> 26)))"
  shows "IsTerminal s' \<and> num_players s' = num_players s \<and>
    (\<forall>p. 0 \<le> p \<and> p < num_players s \<longrightarrow> cell (scores s') p 27 \<le> cell (scores s) p 27)"
proof -
  have slots: "num_players s' = num_players s \<and>
    (\<forall>p. 0 \<le> p \<and> p < num_players s \<longrightarrow> cell (scores s') p 27 \<le> cell (scores s) p 27)"
    using assms(3)
  proof
    assume app: "DoApplyAction K s a = Inr s'"
    have "CurrentPlayer s = kTerminalPlayerId" using assms(2) by (simp add: CurrentPlayer_def)
    then have "\<not> IsSimultaneousNode s" "\<not> IsChanceNode s"
      by (simp_all add: IsSimultaneousNode_def IsChanceNode_def player_defs)
    then have "num_players s' = num_players s \<and> scores s' = scores s"
      using app by (auto simp: DoApplyAction_def split: if_splits Phase.splits)
    then show ?thesis by simp
  next
    assume "DoApplyActions K s actions = Inr s' \<and>
      (\<forall>a\<in>set actions. a = kActionSkip K \<or> a = kActionMiss K \<or> (0 \<le> a \<and> a \<le> 26))"
    then have app: "DoApplyActions K s actions = Inr s'"
      and ids: "\<forall>a\<in>set actions. a = kActionSkip K \<or> a = kActionMiss K \<or> (0 \<le> a \<and> a \<le> 26)"
      by simp_all
    from app obtain sc' where
      len: "int (length actions) = num_players s"
      and loop: "submit_loop K (current_player s) (dice_outcome s) 0 actions (scores s) = Inr sc'"
      and s': "s' = s\<lparr>scores := sc', phase := kSelectDice,
             current_player := cpp_rem (current_player s + 1) (num_players s),
             player := cpp_rem (current_player s + 1) (num_players s)\<rparr>"
      by (rule DoApplyActions_Inr)
    have miss: "kActionMiss K = 27" using assms(1) by (simp add: sentinels_ok_def game_defs)
    have range: "\<forall>a\<in>set actions. a = kActionSkip K \<or> (0 \<le> a \<and> a < 28)"
      using ids miss by auto
    have "cell sc' p 27 \<le> cell (scores s) p 27" if p: "0 \<le> p \<and> p < num_players s" for p
    proof -
      have "nat p < length actions" using p len by linarith
      then have "actions ! nat p \<in> set actions" by simp
      then have "component_effect K (dice_outcome s) (actions ! nat p) 27 (cell (scores s) p 27)
          \<le> cell (scores s) p 27"
        using ids by (intro component_effect_miss_slot) blast
      moreover have "cell sc' p 27
        = component_effect K (dice_outcome s) (actions ! nat p) 27 (cell (scores s) p 27)"
        using submit_loop_nth [OF loop _ range] p len by simp
      ultimately show ?thesis by simp
    qed
    then show ?thesis by (simp add: s')
  qed
  from assms(2) obtain p where p: "0 \<le> p" "p < num_players s" "cell (scores s) p 27 \<le> - 20"
    unfolding IsTerminal_iff by blast
  then have "0 \<le> p \<and> p < num_players s' \<and> cell (scores s') p 27 \<le> - 20"
    using slots by force
  then have "IsTerminal s'" unfolding IsTerminal_iff by (rule exI)
  then show ?thesis using slots by simp
qed

theorem terminal_persists_witness:
  "sentinels_ok example_consts \<and> reachable example_consts 1 finished \<and> IsTerminal finished \<and>
   DoApplyAction example_consts finished 1
     = Inr (finished\<lparr>player := kChancePlayerId, phase := kRollDice\<rparr>) \<and>
   IsTerminal (finished\<lparr>player := kChancePlayerId, phase := kRollDice\<rparr>)"
proof -
  have app: "DoApplyAction example_consts finished 1
     = Inr (finished\<lparr>player := kChancePlayerId, phase := kRollDice\<rparr>)"
    by code_simp
  from terminal_persists [OF example_consts_ok finished_terminal disjI1, OF app]
  show ?thesis using example_consts_ok reachable_finished finished_terminal app by simp
qed

section \<open>What \<open>DoApplyActions\<close> validates (claim C1)\<close>

text \<open>
  Claim C1 says that \<open>DoApplyActions\<close> validates the field that a non-active player
  submits against the placement rules and aborts when it is not legal. It does not: in the
  first submit phase of a game of two players, with only the orange die selected, the
  second player may submit field 9 of the yellow row, which \<open>LegalActions\<close> does not
  list, and the 3 is written there.
\<close>

theorem unvalidated_field_counterexample:
  "reachable example_consts 2 (submitting 2) \<and> phase (submitting 2) = kSubmitPoints \<and>
   current_player (submitting 2) = 0 \<and> 9 \<noteq> kActionSkip example_consts \<and>
   \<not> legal_component example_consts (submitting 2) 1 9 \<and>
   DoApplyActions example_consts (submitting 2) [27, 9]
     = Inr ((submitting 2)\<lparr>scores := (replicate 56 0)[27 := - 5, 37 := 3],
              phase := kSelectDice, current_player := 1, player := 1\<rparr>)"
proof -
  have "reachable example_consts 2 (submitting 2)" by (rule reachable_submitting) simp_all
  moreover have "\<not> legal_component example_consts (submitting 2) 1 9" by code_simp
  moreover have "DoApplyActions example_consts (submitting 2) [27, 9]
     = Inr ((submitting 2)\<lparr>scores := (replicate 56 0)[27 := - 5, 37 := 3],
              phase := kSelectDice, current_player := 1, player := 1\<rparr>)"
    by code_simp
  ultimately show ?thesis by (simp add: submitting_fields example_consts_def)
qed

lemma submit_loop_cases_vector:
  assumes "\<forall>j<length as. as ! j \<noteq> kActionSkip K \<longrightarrow>
      0 \<le> (p + int j) * 28 + as ! j \<and> (p + int j) * 28 + as ! j < int (length sc)"
  shows "(\<exists>sc'. submit_loop K cur outcome p as sc = Inr sc') \<or>
     submit_loop K cur outcome p as sc = Inl SpielFatalError \<and>
       \<not> (\<forall>j<length as. component_checked K cur (p + int j) (as ! j))"
  using assms
proof (induction as arbitrary: p sc)
  case Nil
  then show ?case by simp
next
  case (Cons a as)
  show ?case
  proof (cases "component_checked K cur p a")
    case False
    then have "\<not> (\<forall>j<length (a # as). component_checked K cur (p + int j) ((a # as) ! j))"
      by (auto simp: All_less_Suc2)
    then show ?thesis using submit_loop_unchecked [OF False] by simp
  next
    case True
    have "0 < length (a # as)" by simp
    with Cons.prems have "(a # as) ! 0 \<noteq> kActionSkip K \<longrightarrow>
      0 \<le> (p + int 0) * 28 + (a # as) ! 0 \<and> (p + int 0) * 28 + (a # as) ! 0 < int (length sc)"
      by blast
    then have "a \<noteq> kActionSkip K \<longrightarrow> 0 \<le> p * 28 + a \<and> p * 28 + a < int (length sc)"
      by simp
    from submit_loop_step [OF True this]
    obtain sc1 where len: "length sc1 = length sc"
      and eq: "submit_loop K cur outcome p (a # as) sc = submit_loop K cur outcome (p + 1) as sc1"
      by blast
    have shift: "p + 1 + int j = p + int (Suc j)" for j by simp
    have "\<forall>j<length as. as ! j \<noteq> kActionSkip K \<longrightarrow>
      0 \<le> (p + 1 + int j) * 28 + as ! j \<and> (p + 1 + int j) * 28 + as ! j < int (length sc1)"
    proof (intro allI impI)
      fix j assume j: "j < length as" "as ! j \<noteq> kActionSkip K"
      then have "Suc j < length (a # as)" "(a # as) ! Suc j \<noteq> kActionSkip K" by simp_all
      with Cons.prems have "0 \<le> (p + int (Suc j)) * 28 + (a # as) ! Suc j \<and>
        (p + int (Suc j)) * 28 + (a # as) ! Suc j < int (length sc)"
        by blast
      then show "0 \<le> (p + 1 + int j) * 28 + as ! j \<and>
        (p + 1 + int j) * 28 + as ! j < int (length sc1)"
        unfolding shift len by simp
    qed
    then have ih: "(\<exists>sc'. submit_loop K cur outcome (p + 1) as sc1 = Inr sc') \<or>
       submit_loop K cur outcome (p + 1) as sc1 = Inl SpielFatalError \<and>
       \<not> (\<forall>j<length as. component_checked K cur (p + 1 + int j) (as ! j))"
      by (rule Cons.IH)
    have "(\<forall>j<length as. component_checked K cur (p + 1 + int j) (as ! j)) \<longleftrightarrow>
       (\<forall>j<length as. component_checked K cur (p + int (Suc j)) (as ! j))"
      by (simp only: shift)
    also have "\<dots> \<longleftrightarrow>
       (\<forall>j<length (a # as). component_checked K cur (p + int j) ((a # as) ! j))"
      using True by (simp add: All_less_Suc2)
    finally show ?thesis using ih unfolding eq by simp
  qed
qed

text \<open>
  Claim C1, amended. On a joint action in the submit phase with one component per player,
  each a skip or an index that stays inside the score vector, \<open>DoApplyActions\<close> makes
  two checks per component and no other: a skip must not come from the active player, and
  a miss must come from the active player. It signals a fatal error exactly when a
  component fails one of the two. Otherwise it applies the action and validates no field
  against the placement rules: when the components are skips or indices 0 to 27 into the
  submitting player's own board, a component that is neither skip nor miss sets that cell of
  its player's board to the dice outcome, legal or not, a miss adds the penalty to the cell
  it indexes, and every other cell is as before.
\<close>

theorem apply_actions_two_checks:
  assumes "reachable K n s" "phase s = kSubmitPoints" "int (length actions) = n"
    "\<forall>p. 0 \<le> p \<and> p < n \<and> actions ! nat p \<noteq> kActionSkip K \<longrightarrow>
         0 \<le> p * 28 + actions ! nat p \<and> p * 28 + actions ! nat p < n * 28"
  shows "if \<forall>p. 0 \<le> p \<and> p < n \<longrightarrow>
            component_checked K (current_player s) p (actions ! nat p)
    then (case DoApplyActions K s actions of
            Inl e \<Rightarrow> False
          | Inr s' \<Rightarrow>
              (\<forall>a\<in>set actions. a = kActionSkip K \<or> (0 \<le> a \<and> a \<le> 27)) \<longrightarrow>
              (\<forall>p k. 0 \<le> p \<and> p < n \<and> 0 \<le> k \<and> k \<le> 27 \<longrightarrow>
                 cell (scores s') p k =
                   (if actions ! nat p = kActionSkip K then cell (scores s) p k
                    else if actions ! nat p = kActionMiss K then
                      (if k = actions ! nat p then cell (scores s) p k + kDefaultMissPoints
                       else cell (scores s) p k)
                    else if k = actions ! nat p then dice_outcome s
                    else cell (scores s) p k)))
    else DoApplyActions K s actions = Inl SpielFatalError"
proof -
  have inv: "turn_inv n s" using assms(1) by (rule reachable_turn_inv)
  then have n: "num_players s = n" "1 \<le> n" "int (length (scores s)) = n * 28"
    by (simp_all add: turn_inv_def)
  have idx: "(\<forall>j<length actions. component_checked K (current_player s) (0 + int j) (actions ! j))
    \<longleftrightarrow> (\<forall>p. 0 \<le> p \<and> p < n \<longrightarrow> component_checked K (current_player s) p (actions ! nat p))"
    (is "?L \<longleftrightarrow> ?R")
  proof
    assume l: ?L
    show ?R
    proof (intro allI impI)
      fix p assume p: "0 \<le> p \<and> p < n"
      then have "nat p < length actions" using assms(3) by linarith
      with l have "component_checked K (current_player s) (0 + int (nat p)) (actions ! nat p)"
        by blast
      then show "component_checked K (current_player s) p (actions ! nat p)" using p by simp
    qed
  next
    assume r: ?R
    show ?L
    proof (intro allI impI)
      fix j assume "j < length actions"
      then have "0 \<le> int j \<and> int j < n" using assms(3) by simp
      with r have "component_checked K (current_player s) (int j) (actions ! nat (int j))"
        by blast
      then show "component_checked K (current_player s) (0 + int j) (actions ! j)" by simp
    qed
  qed
  have vec: "\<forall>j<length actions. actions ! j \<noteq> kActionSkip K \<longrightarrow>
      0 \<le> (0 + int j) * 28 + actions ! j \<and>
      (0 + int j) * 28 + actions ! j < int (length (scores s))"
  proof (intro allI impI)
    fix j assume j: "j < length actions" "actions ! j \<noteq> kActionSkip K"
    then have "0 \<le> int j \<and> int j < n \<and> actions ! nat (int j) \<noteq> kActionSkip K"
      using assms(3) by simp
    with assms(4) have "0 \<le> int j * 28 + actions ! nat (int j) \<and>
      int j * 28 + actions ! nat (int j) < n * 28"
      by blast
    then show "0 \<le> (0 + int j) * 28 + actions ! j \<and>
      (0 + int j) * 28 + actions ! j < int (length (scores s))"
      using n by simp
  qed
  note cases = submit_loop_cases_vector [OF vec, of "current_player s" "dice_outcome s"]
  have app: "DoApplyActions K s actions =
    (case submit_loop K (current_player s) (dice_outcome s) 0 actions (scores s) of
       Inl e \<Rightarrow> Inl e
     | Inr sc' \<Rightarrow> Inr (s\<lparr>scores := sc', phase := kSelectDice,
             current_player := cpp_rem (current_player s + 1) (num_players s),
             player := cpp_rem (current_player s + 1) (num_players s)\<rparr>))"
    using assms(2,3) n by (auto simp: DoApplyActions_def Let_def split: sum.splits)
  show ?thesis
  proof (cases "\<exists>sc'. submit_loop K (current_player s) (dice_outcome s) 0 actions (scores s) = Inr sc'")
    case True
    then obtain sc' where
      loop: "submit_loop K (current_player s) (dice_outcome s) 0 actions (scores s) = Inr sc'"
      by blast
    from submit_loop_checked [OF loop] idx have r: "?R" by blast
    define s' where "s' = s\<lparr>scores := sc', phase := kSelectDice,
             current_player := cpp_rem (current_player s + 1) (num_players s),
             player := cpp_rem (current_player s + 1) (num_players s)\<rparr>"
    have res: "DoApplyActions K s actions = Inr s'" unfolding app loop s'_def by simp
    have "cell (scores s') p k =
                   (if actions ! nat p = kActionSkip K then cell (scores s) p k
                    else if actions ! nat p = kActionMiss K then
                      (if k = actions ! nat p then cell (scores s) p k + kDefaultMissPoints
                       else cell (scores s) p k)
                    else if k = actions ! nat p then dice_outcome s
                    else cell (scores s) p k)"
      if board: "\<forall>a\<in>set actions. a = kActionSkip K \<or> (0 \<le> a \<and> a \<le> 27)"
        and pk: "0 \<le> p \<and> p < n \<and> 0 \<le> k \<and> k \<le> 27" for p k
    proof -
      have range: "\<forall>a\<in>set actions. a = kActionSkip K \<or> (0 \<le> a \<and> a < 28)"
        using board by auto
      from DoApplyActions_cells(1) [OF inv res range] pk
      have "cell (scores s') p k
        = component_effect K (dice_outcome s) (actions ! nat p) k (cell (scores s) p k)"
        by simp
      then show ?thesis by (simp add: component_effect_def)
    qed
    then show ?thesis using r unfolding res by simp
  next
    case False
    with cases have
      f: "submit_loop K (current_player s) (dice_outcome s) 0 actions (scores s)
           = Inl SpielFatalError"
      and nl: "\<not> ?L" by simp_all
    from nl idx have "\<not> ?R" by blast
    then show ?thesis unfolding app f by simp
  qed
qed

theorem apply_actions_two_checks_witness:
  "reachable example_consts 2 (submitting 2) \<and> phase (submitting 2) = kSubmitPoints \<and>
   \<not> legal_component example_consts (submitting 2) 1 9 \<and>
   component_checked example_consts (current_player (submitting 2)) 0 27 \<and>
   component_checked example_consts (current_player (submitting 2)) 1 9 \<and>
   (case DoApplyActions example_consts (submitting 2) [27, 9] of
      Inl e \<Rightarrow> False
    | Inr s' \<Rightarrow> cell (scores s') 1 9 = dice_outcome (submitting 2) \<and>
        cell (scores s') 0 27 = cell (scores (submitting 2)) 0 27 + kDefaultMissPoints \<and>
        cell (scores s') 1 10 = cell (scores (submitting 2)) 1 10)"
proof -
  have r: "reachable example_consts 2 (submitting 2)" by (rule reachable_submitting) simp_all
  have ph: "phase (submitting 2) = kSubmitPoints" by (rule submitting_fields)
  have nl: "\<not> legal_component example_consts (submitting 2) 1 9" by code_simp
  have two: "p = 0 \<or> p = 1" if "0 \<le> p \<and> p < 2" for p :: int using that by linarith
  have c0: "component_checked example_consts (current_player (submitting 2)) 0 27"
    and c1: "component_checked example_consts (current_player (submitting 2)) 1 9"
    by (simp_all add: component_checked_def example_consts_def submitting_fields)
  have chk: "\<forall>p. 0 \<le> p \<and> p < 2 \<longrightarrow>
    component_checked example_consts (current_player (submitting 2)) p ([27, 9] ! nat p)"
    using c0 c1 two by fastforce
  have vec: "\<forall>p. 0 \<le> p \<and> p < 2 \<and> [27, 9] ! nat p \<noteq> kActionSkip example_consts \<longrightarrow>
         0 \<le> p * 28 + [27, 9] ! nat p \<and> p * 28 + [27, 9] ! nat p < 2 * 28"
    using two by fastforce
  have board: "\<forall>a\<in>set [27, 9]. a = kActionSkip example_consts \<or> (0 \<le> a \<and> a \<le> (27::int))"
    by simp
  obtain s' where app: "DoApplyActions example_consts (submitting 2) [27, 9] = Inr s'"
    and cells: "\<forall>p k. 0 \<le> p \<and> p < 2 \<and> 0 \<le> k \<and> k \<le> 27 \<longrightarrow>
       cell (scores s') p k =
         (if [27, 9] ! nat p = kActionSkip example_consts then cell (scores (submitting 2)) p k
          else if [27, 9] ! nat p = kActionMiss example_consts then
            (if k = [27, 9] ! nat p then cell (scores (submitting 2)) p k + kDefaultMissPoints
             else cell (scores (submitting 2)) p k)
          else if k = [27, 9] ! nat p then dice_outcome (submitting 2)
          else cell (scores (submitting 2)) p k)"
    using apply_actions_two_checks [OF r ph _ vec] chk board
    by (auto split: sum.splits)
  from cells [rule_format, of 1 9] have "cell (scores s') 1 9 = dice_outcome (submitting 2)"
    by (simp add: example_consts_def)
  moreover from cells [rule_format, of 0 27] have
    "cell (scores s') 0 27 = cell (scores (submitting 2)) 0 27 + kDefaultMissPoints"
    by (simp add: example_consts_def)
  moreover from cells [rule_format, of 1 10]
  have "cell (scores s') 1 10 = cell (scores (submitting 2)) 1 10"
    by (simp add: example_consts_def)
  ultimately show ?thesis using r ph nl c0 c1 app by simp
qed

section \<open>The order check of \<open>LegalActions\<close> (claim C2)\<close>

text \<open>
  Claim C2 says that a field is listed only if every cell to its left in the row is
  non-zero and smaller than the dice outcome. The source only asks the cells to the left
  to be smaller; empty cells may stay behind. On the empty board of the first submit
  phase field 5 is legal although fields 0 to 4 are empty.
\<close>

theorem left_cells_nonzero_counterexample:
  "reachable example_consts 2 (submitting 2) \<and> phase (submitting 2) = kSubmitPoints \<and>
   legal_component example_consts (submitting 2) 0 5 \<and>
   \<not> order_as_specified (submitting 2) 0 5"
proof -
  have "reachable example_consts 2 (submitting 2)" by (rule reachable_submitting) simp_all
  moreover have "legal_component example_consts (submitting 2) 0 5" by code_simp
  moreover have "\<not> order_as_specified (submitting 2) 0 5" by code_simp
  ultimately show ?thesis by (simp add: submitting_fields)
qed

text \<open>
  Claim C2, amended. In the submit phase, for every player, a field \<open>i\<close> is in
  \<open>LegalActions\<close> only if every cell to its left in the same row is strictly less than
  the dice outcome (zero or not) and every cell to its right is zero or strictly greater
  than the dice outcome; the field itself is empty.
\<close>

theorem legal_field_order:
  assumes "reachable K n s" "sentinels_ok K" "phase s = kSubmitPoints" "0 \<le> p" "p < n"
    "0 \<le> i" "i \<le> 26" "legal_component K s p i"
  shows "order_as_checked s p i \<and> cell (scores s) p i = 0"
proof -
  have inv: "turn_inv n s" using assms(1) by (rule reachable_turn_inv)
  have "kActionMiss K = 27" "kActionSkip K < 0 \<or> 27 < kActionSkip K"
    using assms(2) by (simp_all add: sentinels_ok_def game_defs)
  then have "i \<noteq> (if p = current_player s then kActionMiss K else kActionSkip K)"
    using assms(6,7) by auto
  with legal_submit_cells [OF inv assms(4,5,3,8)]
  have "cell_legal (dice_outcome s) (cell (scores s) p) i" by blast
  then show ?thesis
    by (auto simp: cell_legal_def order_as_checked_def left_of_def right_of_def list_all_iff)
qed

theorem legal_field_order_witness:
  "reachable example_consts 2 (submitting 2) \<and> sentinels_ok example_consts \<and>
   phase (submitting 2) = kSubmitPoints \<and> legal_component example_consts (submitting 2) 0 5 \<and>
   order_as_checked (submitting 2) 0 5 \<and> cell (scores (submitting 2)) 0 5 = 0"
proof -
  have r: "reachable example_consts 2 (submitting 2)" by (rule reachable_submitting) simp_all
  have ph: "phase (submitting 2) = kSubmitPoints" by (rule submitting_fields)
  have l: "legal_component example_consts (submitting 2) 0 5" by code_simp
  from legal_field_order [OF r example_consts_ok ph _ _ _ _ l]
  show ?thesis using r example_consts_ok ph l by simp
qed

section \<open>The order of the legal actions (claim C9)\<close>

text \<open>
  Claim C9 says that \<open>LegalActions\<close> returns a strictly ascending list for every
  reachable state and every player argument, the chance sentinel among them. For the
  chance sentinel \<open>LegalActions\<close> goes through \<open>ChanceOutcomes\<close>, which checks that
  the state is a chance node; in the initial state it is not, and the call ends in a
  fatal error.
\<close>

theorem legal_chance_outcomes_counterexample:
  "reachable example_consts 1 (NewInitialState 1) \<and>
   LegalActions example_consts (NewInitialState 1) kChancePlayerId = Inl SpielFatalError"
proof -
  have "\<not> IsChanceNode (NewInitialState 1)"
    by (simp add: IsChanceNode_def example_players player_defs)
  then have "LegalActions example_consts (NewInitialState 1) kChancePlayerId
      = Inl SpielFatalError"
    by (simp add: LegalActions_def LegalChanceOutcomes_def ChanceOutcomes_def player_defs)
  then show ?thesis by (simp add: reachable.initial)
qed

lemma LegalActionsPlayer_cases:
  assumes "LegalActionsPlayer K s p = Inr acts"
  obtains "acts = []"
  | "acts = sort [kOrange, kPurple, kYellow, kOrange OR kPurple, kOrange OR kYellow,
              kPurple OR kYellow, kOrange OR kPurple OR kYellow]"
  | "acts = sort ((if num_dice_rolls s < kDefaultNumDiceRolls K then [0] else []) @ [1])"
  | board where "acts = sort (filter (field_legal s board) [0 .. 26]
       @ [if p = current_player s then kActionMiss K else kActionSkip K])"
proof (cases "IsTerminal s")
  case True
  then have "acts = []" using assms by (auto simp: LegalActionsPlayer_def split: if_splits)
  then show ?thesis by (rule that(1))
next
  case False
  then have a: "acts = sort
        (case phase s of
           kSelectDice \<Rightarrow>
             [kOrange, kPurple, kYellow, kOrange OR kPurple, kOrange OR kYellow,
              kPurple OR kYellow, kOrange OR kPurple OR kYellow]
         | kRollDice \<Rightarrow>
             (if num_dice_rolls s < kDefaultNumDiceRolls K then [0] else []) @ [1]
         | kSubmitPoints \<Rightarrow>
             (let board = drop (nat (p * (kDefaultNumDice * kDefaultNumFields + 1))) (scores s)
              in filter (field_legal s board) [0 .. kDefaultNumDice * kDefaultNumFields - 1]
                 @ [if p = current_player s then kActionMiss K else kActionSkip K]))"
    using assms by (simp add: LegalActionsPlayer_def split: if_splits)
  show ?thesis
  proof (cases "phase s")
    case kSelectDice
    then show ?thesis using a that(2) by simp
  next
    case kRollDice
    then show ?thesis using a that(3) by simp
  next
    case kSubmitPoints
    then have "acts = sort (filter (field_legal s
          (drop (nat (p * (kDefaultNumDice * kDefaultNumFields + 1))) (scores s))) [0 .. 26]
       @ [if p = current_player s then kActionMiss K else kActionSkip K])"
      using a by (simp add: Let_def kDefaultNumDice_def kDefaultNumFields_def)
    then show ?thesis by (rule that(4))
  qed
qed

lemma LegalActionsPlayer_ascending:
  assumes "sentinels_ok K" "LegalActionsPlayer K s p = Inr acts"
  shows "sorted_wrt (<) acts"
  using assms(2)
proof (cases rule: LegalActionsPlayer_cases)
  case 1
  then show ?thesis by simp
next
  case 2
  have "distinct [kOrange, kPurple, kYellow, kOrange OR kPurple, kOrange OR kYellow,
              kPurple OR kYellow, kOrange OR kPurple OR kYellow]"
    by (simp add: game_defs)
  then show ?thesis unfolding 2 strict_sorted_iff by (simp only: sorted_sort distinct_sort simp_thms)
next
  case 3
  have "distinct ((if num_dice_rolls s < kDefaultNumDiceRolls K then [0] else []) @ [1::int])"
    by simp
  then show ?thesis unfolding 3 strict_sorted_iff by (simp only: sorted_sort distinct_sort simp_thms)
next
  case (4 board)
  have k: "kActionMiss K = 27" "kActionSkip K < 0 \<or> 27 < kActionSkip K"
    using assms(1) by (simp_all add: sentinels_ok_def game_defs)
  define z where "z = (if p = current_player s then kActionMiss K else kActionSkip K)"
  have "z \<notin> set (filter (field_legal s board) [0 .. 26])"
    using k by (auto simp: z_def)
  then have "distinct (filter (field_legal s board) [0 .. 26] @ [z])" by simp
  then show ?thesis unfolding 4 strict_sorted_iff z_def [symmetric]
    by (simp only: sorted_sort distinct_sort simp_thms)
qed

lemma LegalActions_ascending:
  assumes "sentinels_ok K" "LegalActions K s p = Inr acts"
  shows "sorted_wrt (<) acts"
proof -
  consider "p = kSimultaneousPlayerId" | "p \<noteq> kSimultaneousPlayerId" "p = kChancePlayerId"
    | "p \<noteq> kSimultaneousPlayerId" "p \<noteq> kChancePlayerId" "p = kTerminalPlayerId"
    | "p \<noteq> kSimultaneousPlayerId" "p \<noteq> kChancePlayerId" "p \<noteq> kTerminalPlayerId"
    by blast
  then show ?thesis
  proof cases
    case 1
    then obtain m where "acts = [0 .. m - 1]"
      using assms(2) by (auto simp: LegalActions_def LegalFlatJointActions_def split: sum.splits)
    then show ?thesis by simp
  next
    case 2
    then obtain outcomes where o: "ChanceOutcomes s = Inr outcomes" and a: "acts = map fst outcomes"
      using assms(2) by (auto simp: LegalActions_def LegalChanceOutcomes_def split: sum.splits)
    from ChanceOutcomes_num_dice [OF o]
    have "IsChanceNode s" "1 \<le> num_selected_dice (dice s)" by simp_all
    from ChanceOutcomes_distribution [OF this] o
    have "map fst outcomes
      = [int (num_selected_dice (dice s)) .. 6 * int (num_selected_dice (dice s))]"
      by auto
    then show ?thesis unfolding a by simp
  next
    case 3
    then show ?thesis using assms(2) by (simp add: LegalActions_def)
  next
    case 4
    then have "LegalActionsPlayer K s p = Inr acts" using assms(2) by (simp add: LegalActions_def)
    with assms(1) show ?thesis by (rule LegalActionsPlayer_ascending)
  qed
qed

lemma LegalActionsPlayer_total:
  assumes "0 \<le> p" "p < num_players s"
  shows "\<exists>acts. LegalActionsPlayer K s p = Inr acts"
  using assms by (simp add: LegalActionsPlayer_def)

lemma num_joint_actions_total:
  assumes "\<forall>p\<in>set ps. 0 \<le> p \<and> p < num_players s"
  shows "\<exists>m. num_joint_actions K s ps = Inr m"
  using assms
proof (induction ps)
  case Nil
  then show ?case by simp
next
  case (Cons p ps)
  then obtain m where "num_joint_actions K s ps = Inr m" by auto
  moreover obtain acts where "LegalActionsPlayer K s p = Inr acts"
    using LegalActionsPlayer_total [of p s K] Cons.prems by auto
  ultimately show ?case by simp
qed

lemma reachable_chance_outcomes:
  assumes "reachable K n s" "IsChanceNode s"
  shows "\<exists>outs. ChanceOutcomes s = Inr outs"
proof -
  from assms(2) have "player s = kChancePlayerId"
    by (auto simp: IsChanceNode_def CurrentPlayer_def player_defs split: if_splits)
  with reachable_turn_inv [OF assms(1)] have "1 \<le> dice s" "dice s \<le> 7"
    by (auto simp: turn_inv_def)
  then have "1 \<le> num_selected_dice (dice s)" by (rule dice_selected)
  from ChanceOutcomes_distribution [OF assms(2) this] show ?thesis by blast
qed

text \<open>
  Claim C9, amended. On a reachable state every list that \<open>LegalActions\<close> returns is
  strictly ascending, hence free of duplicates, whatever the player argument; and
  \<open>LegalActions\<close> does return a list for every real player index, for the simultaneous
  and the terminal sentinel, and for the chance sentinel at a chance node. For the chance
  sentinel at a state that is not a chance node it signals a fatal error instead.
\<close>

theorem legal_actions_ascending:
  assumes "reachable K n s" "sentinels_ok K"
  shows "(\<forall>p acts. LegalActions K s p = Inr acts \<longrightarrow> sorted_wrt (<) acts \<and> distinct acts) \<and>
    (\<forall>p. (0 \<le> p \<and> p < n) \<or> p = kSimultaneousPlayerId \<or> p = kTerminalPlayerId \<or>
          (p = kChancePlayerId \<and> IsChanceNode s)
        \<longrightarrow> (\<exists>acts. LegalActions K s p = Inr acts)) \<and>
    (\<not> IsChanceNode s \<longrightarrow> LegalActions K s kChancePlayerId = Inl SpielFatalError)"
proof -
  have asc: "sorted_wrt (<) acts \<and> distinct acts" if "LegalActions K s p = Inr acts" for p acts
  proof -
    from assms(2) that have "sorted_wrt (<) acts" by (rule LegalActions_ascending)
    then show ?thesis by (simp add: strict_sorted_iff)
  qed
  have n: "num_players s = n" using reachable_turn_inv [OF assms(1)] by (simp add: turn_inv_def)
  have tot: "\<exists>acts. LegalActions K s p = Inr acts"
    if p: "(0 \<le> p \<and> p < n) \<or> p = kSimultaneousPlayerId \<or> p = kTerminalPlayerId \<or>
          (p = kChancePlayerId \<and> IsChanceNode s)" for p
  proof -
    from p consider "0 \<le> p" "p < n" | "p = kSimultaneousPlayerId" | "p = kTerminalPlayerId"
      | "p = kChancePlayerId" "IsChanceNode s" by blast
    then show ?thesis
    proof cases
      case 1
      then show ?thesis using LegalActionsPlayer_total [of p s K] n
        by (simp add: LegalActions_real)
    next
      case 2
      have "\<forall>p\<in>set [0 .. num_players s - 1]. 0 \<le> p \<and> p < num_players s" by simp
      from num_joint_actions_total [OF this, of K] obtain m where
        "num_joint_actions K s [0 .. num_players s - 1] = Inr m" by blast
      then show ?thesis using 2 by (simp add: LegalActions_def LegalFlatJointActions_def)
    next
      case 3
      then show ?thesis by (simp add: LegalActions_def player_defs)
    next
      case 4
      from reachable_chance_outcomes [OF assms(1) 4(2)] obtain outs where
        "ChanceOutcomes s = Inr outs" by blast
      then show ?thesis using 4(1)
        by (simp add: LegalActions_def LegalChanceOutcomes_def player_defs)
    qed
  qed
  have "LegalActions K s kChancePlayerId = Inl SpielFatalError" if "\<not> IsChanceNode s"
    using that
    by (simp add: LegalActions_def LegalChanceOutcomes_def ChanceOutcomes_def player_defs)
  then show ?thesis using asc tot by blast
qed

theorem legal_actions_ascending_witness:
  "reachable example_consts 2 (submitting 2) \<and> sentinels_ok example_consts \<and>
   LegalActions example_consts (submitting 2) 0 = Inr [0, 1, 2, 3, 4, 5, 6, 7, 8, 27] \<and>
   sorted_wrt (<) [0, 1, 2, 3, 4, 5, 6, 7, 8, 27 :: int] \<and>
   (\<exists>acts. LegalActions example_consts (submitting 2) kSimultaneousPlayerId = Inr acts)"
proof -
  have r: "reachable example_consts 2 (submitting 2)" by (rule reachable_submitting) simp_all
  have l: "LegalActions example_consts (submitting 2) 0 = Inr [0, 1, 2, 3, 4, 5, 6, 7, 8, 27]"
    by code_simp
  from legal_actions_ascending [OF r example_consts_ok] l
  have "sorted_wrt (<) [0, 1, 2, 3, 4, 5, 6, 7, 8, 27 :: int]"
    and "\<exists>acts. LegalActions example_consts (submitting 2) kSimultaneousPlayerId = Inr acts"
    by blast+
  then show ?thesis using r example_consts_ok l by simp
qed

end
